theory Spec2Isabelle
  imports Main "HOL-Library.Char_ord"
begin

section \<open>Data model\<close>

text \<open>
  The program (\<^verbatim>\<open>Lab3/main.cpp\<close>) keeps its graph in heap objects linked by raw
  pointers. The embedding makes the heap explicit.

  \<^item> A \<^verbatim>\<open>Vertex*\<close> is modelled by the vertex's name: \<^verbatim>\<open>readGraph\<close> allocates exactly
    one \<^verbatim>\<open>Vertex\<close> per name (through a \<^verbatim>\<open>std::map<char, Vertex*>\<close>), so comparing
    two vertex pointers is comparing two names.
  \<^item> An \<^verbatim>\<open>Edge*\<close> is the allocation index of the edge (0 for the first \<^verbatim>\<open>new Edge\<close>,
    1 for the second, ...); \<^verbatim>\<open>nullptr\<close> is \<open>None\<close>. The pointer comparison \<^verbatim>\<open>a < b\<close>
    in \<^verbatim>\<open>EdgePtrComparator\<close> is modelled as the comparison of the allocation indices.
  \<^item> The C++ \<^verbatim>\<open>int\<close> is a 32-bit two's complement integer: values are kept as \<open>int\<close>
    and every \<^verbatim>\<open>+=\<close> and \<^verbatim>\<open>-=\<close> wraps through \<open>int32\<close>. The capacities of an input
    are the values that \<^verbatim>\<open>std::cin\<close> stored into an \<^verbatim>\<open>int\<close>; the theorems ask for them to
    lie in the range of an \<^verbatim>\<open>int\<close>.
  \<^item> \<^verbatim>\<open>char\<close> comparison is the order of \<open>HOL-Library.Char_ord\<close> (the order of the
    character codes, which is the C++ order on ASCII labels); it decides only the order in
    which edges are tried.
  \<^item> An \<^verbatim>\<open>assert\<close> that fails, \<^verbatim>\<open>std::map::at\<close> on a missing key and a null pointer that
    is dereferenced are results of the type \<open>error\<close>.
\<close>

definition int32 :: "int \<Rightarrow> int" where
  "int32 x = signed_take_bit 31 x"

datatype error = NoSuchVertex | AssertionFailed | NullPointer

record Edge =
  source :: char
  target :: char
  capacity :: int
  flow :: int
  isReverseEdge :: bool
  reverseEdge :: "nat option"

record Vertex =
  name :: char
  inPath :: bool
  edges :: "nat list"

text \<open>\<^verbatim>\<open>struct Graph\<close>: the two designated vertices and the set of all vertices, which
  \<^verbatim>\<open>VertexPtrComparator\<close> keeps in ascending order of name.\<close>

record Graph =
  graph_source :: char
  graph_target :: char
  vertices :: "char list"

text \<open>The heap: the \<^verbatim>\<open>Vertex\<close> object of every name, the \<^verbatim>\<open>Edge\<close> object at every
  allocation index, and the number of edges allocated so far.\<close>

record Heap =
  vertex_at :: "char \<Rightarrow> Vertex"
  edge_at :: "nat \<Rightarrow> Edge"
  edge_count :: nat

type_synonym Path = "nat list"

definition emptyHeap :: Heap where
  "emptyHeap =
     \<lparr>vertex_at = (\<lambda>c. \<lparr>name = CHR ''?'', inPath = False, edges = []\<rparr>),
      edge_at = (\<lambda>i. \<lparr>source = CHR ''?'', target = CHR ''?'', capacity = 0, flow = 0,
                        isReverseEdge = False, reverseEdge = None\<rparr>),
      edge_count = 0\<rparr>"

definition set_inPath :: "char \<Rightarrow> bool \<Rightarrow> Heap \<Rightarrow> Heap" where
  "set_inPath v b h = h\<lparr>vertex_at := (vertex_at h)(v := (vertex_at h v)\<lparr>inPath := b\<rparr>)\<rparr>"

definition set_edges :: "char \<Rightarrow> nat list \<Rightarrow> Heap \<Rightarrow> Heap" where
  "set_edges v es h = h\<lparr>vertex_at := (vertex_at h)(v := (vertex_at h v)\<lparr>edges := es\<rparr>)\<rparr>"

definition set_flow :: "nat \<Rightarrow> int \<Rightarrow> Heap \<Rightarrow> Heap" where
  "set_flow e x h = h\<lparr>edge_at := (edge_at h)(e := (edge_at h e)\<lparr>flow := x\<rparr>)\<rparr>"

definition set_capacity :: "nat \<Rightarrow> int \<Rightarrow> Heap \<Rightarrow> Heap" where
  "set_capacity e x h = h\<lparr>edge_at := (edge_at h)(e := (edge_at h e)\<lparr>capacity := x\<rparr>)\<rparr>"

definition set_reverseEdge :: "nat \<Rightarrow> nat option \<Rightarrow> Heap \<Rightarrow> Heap" where
  "set_reverseEdge e r h = h\<lparr>edge_at := (edge_at h)(e := (edge_at h e)\<lparr>reverseEdge := r\<rparr>)\<rparr>"

text \<open>\<^verbatim>\<open>new Edge\<close> followed by the assignments to its fields.\<close>

definition new_Edge :: "Edge \<Rightarrow> Heap \<Rightarrow> Heap" where
  "new_Edge E h = h\<lparr>edge_at := (edge_at h)(edge_count h := E), edge_count := Suc (edge_count h)\<rparr>"

section \<open>The ordered edge set of a vertex\<close>

text \<open>\<^verbatim>\<open>EdgePtrComparator::operator()\<close>.\<close>

definition edgeLess :: "Heap \<Rightarrow> nat \<Rightarrow> nat \<Rightarrow> bool" where
  "edgeLess h a b =
     (if name (vertex_at h (source (edge_at h a))) \<noteq> name (vertex_at h (source (edge_at h b)))
      then name (vertex_at h (source (edge_at h a))) < name (vertex_at h (source (edge_at h b)))
      else if name (vertex_at h (target (edge_at h a))) \<noteq> name (vertex_at h (target (edge_at h b)))
      then name (vertex_at h (target (edge_at h a))) < name (vertex_at h (target (edge_at h b)))
      else a < b)"

text \<open>\<^verbatim>\<open>std::set::insert\<close>: the new element goes before the first element it is less
  than; an equivalent element already present blocks the insertion.\<close>

fun insertEdge :: "Heap \<Rightarrow> nat \<Rightarrow> nat list \<Rightarrow> nat list" where
  "insertEdge h e [] = [e]"
| "insertEdge h e (x # xs) =
     (if edgeLess h e x then e # x # xs
      else if edgeLess h x e then x # insertEdge h e xs
      else x # xs)"

section \<open>Reading the graph\<close>

text \<open>The input after parsing: the source label, the target label and one
  (source, target, capacity) triple per edge; the leading count of the text input is
  the length of the list. The local \<^verbatim>\<open>std::map<char, Vertex*> vertices\<close> is the ascending
  list of its keys.\<close>

type_synonym Input = "char \<times> char \<times> (char \<times> char \<times> int) list"

text \<open>\<^verbatim>\<open>auto &v = vertices[c]; if (v == nullptr) v = new Vertex{c};\<close>\<close>

definition getVertex :: "char \<Rightarrow> char list \<times> Heap \<Rightarrow> char list \<times> Heap" where
  "getVertex c st =
     (case st of (known, h) \<Rightarrow>
        if c \<in> set known then (known, h)
        else (insort c known,
              h\<lparr>vertex_at := (vertex_at h)(c := \<lparr>name = c, inPath = False, edges = []\<rparr>)\<rparr>))"

fun readEdges :: "(char \<times> char \<times> int) list \<Rightarrow> char list \<times> Heap \<Rightarrow> char list \<times> Heap" where
  "readEdges [] st = st"
| "readEdges ((edgeSourceName, edgeTargetName, cap) # rest) st =
     (case getVertex edgeTargetName (getVertex edgeSourceName st) of (known, h) \<Rightarrow>
        let e = edge_count h;
            h1 = new_Edge \<lparr>source = edgeSourceName, target = edgeTargetName, capacity = cap,
                           flow = 0, isReverseEdge = False, reverseEdge = None\<rparr> h;
            h2 = set_edges edgeSourceName (insertEdge h1 e (edges (vertex_at h1 edgeSourceName))) h1
        in readEdges rest (known, h2))"

definition readGraph :: "Input \<Rightarrow> error + Graph \<times> Heap" where
  "readGraph inp =
     (case inp of (sourceName, targetName, es) \<Rightarrow>
        (case readEdges es ([], emptyHeap) of (known, h) \<Rightarrow>
           if sourceName \<notin> set known then Inl NoSuchVertex
           else if targetName \<notin> set known then Inl NoSuchVertex
           else Inr (\<lparr>graph_source = sourceName, graph_target = targetName, vertices = known\<rparr>, h)))"

section \<open>Residual graph construction\<close>

text \<open>The body of the inner loop of \<^verbatim>\<open>addReverseEdges\<close> for one edge.\<close>

definition addReverseEdge :: "nat \<Rightarrow> Heap \<Rightarrow> error + Heap" where
  "addReverseEdge e h =
     (if isReverseEdge (edge_at h e) \<and> reverseEdge (edge_at h e) = None then Inl AssertionFailed
      else if reverseEdge (edge_at h e) \<noteq> None then Inr h
      else
        let r = edge_count h;
            h1 = new_Edge \<lparr>source = target (edge_at h e), target = source (edge_at h e),
                           capacity = 0, flow = 0, isReverseEdge = True,
                           reverseEdge = Some e\<rparr> h;
            h2 = set_reverseEdge e (Some r) h1;
            v = target (edge_at h2 e)
        in Inr (set_edges v (insertEdge h2 r (edges (vertex_at h2 v))) h2))"

text \<open>The inner loop runs over the edge set of one vertex. An edge inserted into that very
  set while the loop runs is a fresh reverse edge whose \<^verbatim>\<open>reverseEdge\<close> is already set, for
  which the body is a no-op, so the loop is modelled over the set as it is when the loop
  starts.\<close>

fun addReverseEdges_edges :: "nat list \<Rightarrow> Heap \<Rightarrow> error + Heap" where
  "addReverseEdges_edges [] h = Inr h"
| "addReverseEdges_edges (e # es) h =
     (case addReverseEdge e h of Inl err \<Rightarrow> Inl err | Inr h' \<Rightarrow> addReverseEdges_edges es h')"

fun addReverseEdges_vertices :: "char list \<Rightarrow> Heap \<Rightarrow> error + Heap" where
  "addReverseEdges_vertices [] h = Inr h"
| "addReverseEdges_vertices (v # vs) h =
     (case addReverseEdges_edges (edges (vertex_at h v)) h of
        Inl err \<Rightarrow> Inl err
      | Inr h' \<Rightarrow> addReverseEdges_vertices vs h')"

definition addReverseEdges :: "Graph \<Rightarrow> Heap \<Rightarrow> error + Heap" where
  "addReverseEdges graph h = addReverseEdges_vertices (vertices graph) h"

section \<open>Augmenting path search\<close>

text \<open>The \<^verbatim>\<open>for\<close> loop of \<^verbatim>\<open>findPath\<close>, with the edges still to be tried as an argument
  (\<^verbatim>\<open>source->edges\<close> from \<^verbatim>\<open>rbegin()\<close> on, that is the edge list reversed). The result
  is the heap, the path and the returned flag; \<open>None\<close> stands for a search that does not
  return.\<close>

partial_function (option) findPath_loop ::
  "Heap \<Rightarrow> char \<Rightarrow> char \<Rightarrow> nat list \<Rightarrow> Path \<Rightarrow> (Heap \<times> Path \<times> bool) option" where
  "findPath_loop h src tgt es path =
     (case es of
        [] \<Rightarrow> Some (set_inPath src False h, path, False)
      | edge # rest \<Rightarrow>
          if \<not> inPath (vertex_at h (target (edge_at h edge))) \<and> capacity (edge_at h edge) > 0
          then
            let path1 = path @ [edge]; v = target (edge_at h edge) in
            if v = tgt then Some (h, path1, True)
            else
              Option.bind
                (findPath_loop (set_inPath v True h) v tgt
                   (rev (edges (vertex_at (set_inPath v True h) v))) path1)
                (\<lambda>res. case res of (h1, path2, pathIsFound) \<Rightarrow>
                   let h2 = set_inPath (target (edge_at h1 edge)) False h1 in
                   if pathIsFound then Some (set_inPath src False h2, path2, True)
                   else findPath_loop h2 src tgt rest (butlast path2))
          else findPath_loop h src tgt rest path)"

text \<open>\<^verbatim>\<open>findPath(source, target, path)\<close> with \<^verbatim>\<open>clearPath = true\<close>.\<close>

definition findPath :: "Heap \<Rightarrow> char \<Rightarrow> char \<Rightarrow> (Heap \<times> Path \<times> bool) option" where
  "findPath h src tgt =
     (let h1 = set_inPath src True h
      in findPath_loop h1 src tgt (rev (edges (vertex_at h1 src))) [])"

section \<open>Flow update\<close>

definition findMinCapacity :: "Heap \<Rightarrow> Path \<Rightarrow> error + int" where
  "findMinCapacity h path =
     (case path of
        [] \<Rightarrow> Inl AssertionFailed
      | front # _ \<Rightarrow>
          Inr (fold (\<lambda>edge minCapacity. min minCapacity (capacity (edge_at h edge))) path
                 (capacity (edge_at h front))))"

fun changeFlow_loop :: "Path \<Rightarrow> int \<Rightarrow> Heap \<Rightarrow> error + Heap" where
  "changeFlow_loop [] flowChange h = Inr h"
| "changeFlow_loop (edge # rest) flowChange h =
     (let h1 = set_flow edge (int32 (flow (edge_at h edge) + flowChange)) h in
      if \<not> capacity (edge_at h1 edge) \<ge> flowChange then Inl AssertionFailed
      else
        let h2 = set_capacity edge (int32 (capacity (edge_at h1 edge) - flowChange)) h1 in
        (case reverseEdge (edge_at h2 edge) of
           None \<Rightarrow> Inl NullPointer
         | Some r \<Rightarrow>
             let h3 = set_flow r (int32 (flow (edge_at h2 r) - flowChange)) h2;
                 h4 = set_capacity r (int32 (capacity (edge_at h3 r) + flowChange)) h3
             in changeFlow_loop rest flowChange h4))"

definition changeFlow :: "Path \<Rightarrow> int \<Rightarrow> Heap \<Rightarrow> error + Heap" where
  "changeFlow path flowChange h =
     (if \<not> flowChange \<ge> 0 then Inl AssertionFailed else changeFlow_loop path flowChange h)"

section \<open>The driver\<close>

text \<open>The \<^verbatim>\<open>while\<close> loop of \<^verbatim>\<open>findMaxFlow\<close>; \<open>None\<close> stands for a loop that runs forever.\<close>

partial_function (option) findMaxFlow_loop ::
  "Graph \<Rightarrow> Heap \<Rightarrow> int \<Rightarrow> (error + Heap \<times> int) option" where
  "findMaxFlow_loop graph h maxFlow =
     Option.bind (findPath h (graph_source graph) (graph_target graph))
       (\<lambda>res. case res of (h1, path, pathIsFound) \<Rightarrow>
          if \<not> pathIsFound then Some (Inr (h1, maxFlow))
          else
            (case findMinCapacity h1 path of
               Inl err \<Rightarrow> Some (Inl err)
             | Inr minCapacity \<Rightarrow>
                 (case changeFlow path minCapacity h1 of
                    Inl err \<Rightarrow> Some (Inl err)
                  | Inr h2 \<Rightarrow> findMaxFlow_loop graph h2 (int32 (maxFlow + minCapacity)))))"

definition findMaxFlow :: "Graph \<Rightarrow> Heap \<Rightarrow> (error + Heap \<times> int) option" where
  "findMaxFlow graph h =
     (case addReverseEdges graph h of
        Inl err \<Rightarrow> Some (Inl err)
      | Inr h0 \<Rightarrow> findMaxFlow_loop graph h0 0)"

text \<open>What \<^verbatim>\<open>printGraph(graph, false, false)\<close> writes: one (source, target, flow) line per
  edge that is not a reverse edge, vertex by vertex.\<close>

definition printGraph :: "Graph \<Rightarrow> Heap \<Rightarrow> (char \<times> char \<times> int) list" where
  "printGraph graph h =
     concat (map (\<lambda>v. map (\<lambda>e. (name (vertex_at h v),
                                 name (vertex_at h (target (edge_at h e))),
                                 flow (edge_at h e)))
                        (filter (\<lambda>e. \<not> isReverseEdge (edge_at h e)) (edges (vertex_at h v))))
                 (vertices graph))"

text \<open>\<^verbatim>\<open>main\<close>: the flow value and the printed edges.\<close>

definition main :: "Input \<Rightarrow> (error + int \<times> (char \<times> char \<times> int) list) option" where
  "main inp =
     (case readGraph inp of
        Inl err \<Rightarrow> Some (Inl err)
      | Inr (graph, h) \<Rightarrow>
          (case findMaxFlow graph h of
             None \<Rightarrow> None
           | Some (Inl err) \<Rightarrow> Some (Inl err)
           | Some (Inr (h', maxFlow)) \<Rightarrow> Some (Inr (maxFlow, printGraph graph h'))))"

section \<open>Specification vocabulary\<close>

definition unmarked :: "Heap \<Rightarrow> nat" where
  "unmarked h = card {v. \<not> inPath (vertex_at h v)}"

definition same_graph :: "Heap \<Rightarrow> Heap \<Rightarrow> bool" where
  "same_graph h h' \<longleftrightarrow>
     edge_at h' = edge_at h \<and> edge_count h' = edge_count h \<and>
     (\<forall>u. name (vertex_at h' u) = name (vertex_at h u) \<and>
          edges (vertex_at h' u) = edges (vertex_at h u))"

definition search_frame :: "Heap \<Rightarrow> char \<Rightarrow> Heap \<Rightarrow> bool" where
  "search_frame h src h' \<longleftrightarrow>
     same_graph h h' \<and> (\<forall>u. u \<noteq> src \<longrightarrow> inPath (vertex_at h' u) = inPath (vertex_at h u))"

fun is_walk :: "Heap \<Rightarrow> char \<Rightarrow> Path \<Rightarrow> char \<Rightarrow> bool" where
  "is_walk h u [] w = (u = w)"
| "is_walk h u (e # q) w =
     (e \<in> set (edges (vertex_at h u)) \<and> source (edge_at h e) = u \<and>
      is_walk h (target (edge_at h e)) q w)"

definition adj_ok :: "Heap \<Rightarrow> bool" where
  "adj_ok h \<longleftrightarrow> (\<forall>v. \<forall>e \<in> set (edges (vertex_at h v)). source (edge_at h e) = v)"

abbreviation tgt_of :: "Heap \<Rightarrow> nat \<Rightarrow> char" where
  "tgt_of h e \<equiv> target (edge_at h e)"

text \<open>What a search that returns says about its result.\<close>

definition found_path :: "Heap \<Rightarrow> char \<Rightarrow> char \<Rightarrow> nat list \<Rightarrow> Path \<Rightarrow> bool" where
  "found_path h src tgt es q \<longleftrightarrow>
     q \<noteq> [] \<and> hd q \<in> set es \<and> is_walk h src q tgt \<and>
     (\<forall>e \<in> set q. capacity (edge_at h e) > 0) \<and>
     (\<forall>e \<in> set q. \<not> inPath (vertex_at h (tgt_of h e))) \<and>
     distinct (map (tgt_of h) q)"

definition heap_ok :: "Heap \<Rightarrow> bool" where
  "heap_ok h \<longleftrightarrow>
     (\<forall>v. \<forall>e \<in> set (edges (vertex_at h v)). e < edge_count h \<and> source (edge_at h e) = v) \<and>
     (\<forall>v. distinct (edges (vertex_at h v))) \<and>
     (\<forall>e < edge_count h. e \<in> set (edges (vertex_at h (source (edge_at h e)))))"

text \<open>The state of \<^verbatim>\<open>readGraph\<close> while it reads the edges.\<close>

definition read_inv :: "char list \<times> Heap \<Rightarrow> bool" where
  "read_inv st \<longleftrightarrow> (case st of (known, h) \<Rightarrow>
     heap_ok h \<and>
     (\<forall>e. reverseEdge (edge_at h e) = None \<and> \<not> isReverseEdge (edge_at h e) \<and>
          flow (edge_at h e) = 0) \<and>
     (\<forall>e < edge_count h. source (edge_at h e) \<in> set known \<and> target (edge_at h e) \<in> set known) \<and>
     (\<forall>v. \<not> inPath (vertex_at h v)) \<and>
     (\<forall>v. v \<notin> set known \<longrightarrow> edges (vertex_at h v) = []))"

text \<open>The edge allocated for the \<open>i\<close>-th triple of the input.\<close>

definition input_Edge :: "char \<times> char \<times> int \<Rightarrow> Edge" where
  "input_Edge x = \<lparr>source = fst x, target = fst (snd x), capacity = snd (snd x), flow = 0,
                    isReverseEdge = False, reverseEdge = None\<rparr>"

text \<open>The vertex names of an input.\<close>

definition input_names :: "(char \<times> char \<times> int) list \<Rightarrow> char set" where
  "input_names es = fst ` set es \<union> (fst \<circ> snd) ` set es"

definition pairs_ok :: "Heap \<Rightarrow> bool" where
  "pairs_ok h \<longleftrightarrow>
     (\<forall>e r. reverseEdge (edge_at h e) = Some r \<longrightarrow>
        e < edge_count h \<and> r < edge_count h \<and> reverseEdge (edge_at h r) = Some e \<and>
        source (edge_at h r) = target (edge_at h e) \<and>
        target (edge_at h r) = source (edge_at h e) \<and>
        isReverseEdge (edge_at h r) = (\<not> isReverseEdge (edge_at h e)))"

text \<open>The state of \<^verbatim>\<open>addReverseEdges\<close> with the vertices \<open>vs\<close> and, of the current vertex,
  the edges \<open>es\<close> still to visit.\<close>

definition ar_inv :: "char list \<Rightarrow> nat list \<Rightarrow> Heap \<Rightarrow> bool" where
  "ar_inv vs es h \<longleftrightarrow>
     heap_ok h \<and> pairs_ok h \<and>
     (\<forall>e. isReverseEdge (edge_at h e) \<longrightarrow> reverseEdge (edge_at h e) \<noteq> None) \<and>
     (\<forall>e < edge_count h. reverseEdge (edge_at h e) = None \<longrightarrow>
        e \<in> set es \<or> source (edge_at h e) \<in> set vs) \<and>
     (\<forall>e \<in> set es. e < edge_count h)"

text \<open>What residual construction keeps of the heap it starts from.\<close>

definition extends :: "Heap \<Rightarrow> Heap \<Rightarrow> bool" where
  "extends h h' \<longleftrightarrow>
     edge_count h \<le> edge_count h' \<and>
     (\<forall>x < edge_count h.
        source (edge_at h' x) = source (edge_at h x) \<and>
        target (edge_at h' x) = target (edge_at h x) \<and>
        capacity (edge_at h' x) = capacity (edge_at h x) \<and>
        flow (edge_at h' x) = flow (edge_at h x) \<and>
        isReverseEdge (edge_at h' x) = isReverseEdge (edge_at h x) \<and>
        (reverseEdge (edge_at h x) \<noteq> None \<longrightarrow>
           reverseEdge (edge_at h' x) = reverseEdge (edge_at h x))) \<and>
     (\<forall>x. edge_count h \<le> x \<and> x < edge_count h' \<longrightarrow>
        isReverseEdge (edge_at h' x) \<and> capacity (edge_at h' x) = 0 \<and> flow (edge_at h' x) = 0) \<and>
     (\<forall>v. inPath (vertex_at h' v) = inPath (vertex_at h v) \<and>
          name (vertex_at h' v) = name (vertex_at h v) \<and>
          set (edges (vertex_at h v)) \<subseteq> set (edges (vertex_at h' v)))"

text \<open>The residual graph: every edge has its reverse edge.\<close>

definition residual_ok :: "Heap \<Rightarrow> bool" where
  "residual_ok h \<longleftrightarrow>
     heap_ok h \<and> pairs_ok h \<and> (\<forall>e < edge_count h. reverseEdge (edge_at h e) \<noteq> None)"

definition in32 :: "int \<Rightarrow> bool" where
  "in32 x \<longleftrightarrow> - (2 ^ 31) \<le> x \<and> x < 2 ^ 31"

text \<open>Sending \<open>m\<close> units along the edge \<open>e\<close> whose reverse edge is \<open>r\<close>, in exact
  arithmetic.\<close>

definition push :: "nat \<Rightarrow> nat \<Rightarrow> int \<Rightarrow> Heap \<Rightarrow> Heap" where
  "push e r m h =
     h\<lparr>edge_at := (edge_at h)
        (e := (edge_at h e)\<lparr>flow := flow (edge_at h e) + m, capacity := capacity (edge_at h e) - m\<rparr>,
         r := (edge_at h r)\<lparr>flow := flow (edge_at h r) - m, capacity := capacity (edge_at h r) + m\<rparr>)\<rparr>"

text \<open>Two heaps that hold the same graph: they differ at most in the markers, the
  capacities and the flows.\<close>

definition same_struct :: "Heap \<Rightarrow> Heap \<Rightarrow> bool" where
  "same_struct h h' \<longleftrightarrow>
     edge_count h' = edge_count h \<and>
     (\<forall>e. source (edge_at h' e) = source (edge_at h e) \<and>
          target (edge_at h' e) = target (edge_at h e) \<and>
          isReverseEdge (edge_at h' e) = isReverseEdge (edge_at h e) \<and>
          reverseEdge (edge_at h' e) = reverseEdge (edge_at h e)) \<and>
     (\<forall>v. name (vertex_at h' v) = name (vertex_at h v) \<and>
          edges (vertex_at h' v) = edges (vertex_at h v))"

text \<open>The numbers of an edge and its reverse edge, relative to the heap \<open>h0\<close> that residual
  construction left.\<close>

definition pair_inv :: "Heap \<Rightarrow> Heap \<Rightarrow> bool" where
  "pair_inv h0 h \<longleftrightarrow>
     (\<forall>e r. \<not> isReverseEdge (edge_at h0 e) \<and> reverseEdge (edge_at h0 e) = Some r \<longrightarrow>
        0 \<le> capacity (edge_at h r) \<and>
        capacity (edge_at h e) + capacity (edge_at h r) = capacity (edge_at h0 e) \<and>
        flow (edge_at h e) = capacity (edge_at h r) \<and>
        flow (edge_at h r) = - capacity (edge_at h r) \<and>
        (0 \<le> capacity (edge_at h e) \<or> capacity (edge_at h r) = 0))"

definition caps_in32 :: "Heap \<Rightarrow> bool" where
  "caps_in32 h0 \<longleftrightarrow>
     (\<forall>e < edge_count h0. \<not> isReverseEdge (edge_at h0 e) \<longrightarrow> in32 (capacity (edge_at h0 e)))"

text \<open>The heap after \<^verbatim>\<open>changeFlow\<close> has gone through a path.\<close>

fun pushes :: "Path \<Rightarrow> int \<Rightarrow> Heap \<Rightarrow> Heap" where
  "pushes [] m h = h"
| "pushes (e # q) m h =
     (case reverseEdge (edge_at h e) of None \<Rightarrow> h | Some r \<Rightarrow> pushes q m (push e r m h))"

text \<open>A path whose edges are distinct and that holds no edge together with its reverse
  edge.\<close>

definition pushable :: "Heap \<Rightarrow> Path \<Rightarrow> bool" where
  "pushable h0 q \<longleftrightarrow>
     distinct q \<and> (\<forall>e \<in> set q. e < edge_count h0) \<and>
     (\<forall>e \<in> set q. \<forall>r. reverseEdge (edge_at h0 e) = Some r \<longrightarrow> r \<notin> set q)"

text \<open>Flow leaving and entering a vertex on the first \<open>n\<close> edges (the edges of the input),
  and the residual capacity leaving a vertex on all edges.\<close>

definition outflow :: "nat \<Rightarrow> Heap \<Rightarrow> char \<Rightarrow> int" where
  "outflow n h v = (\<Sum>e<n. if source (edge_at h e) = v then flow (edge_at h e) else 0)"

definition inflow :: "nat \<Rightarrow> Heap \<Rightarrow> char \<Rightarrow> int" where
  "inflow n h v = (\<Sum>e<n. if target (edge_at h e) = v then flow (edge_at h e) else 0)"

definition cap_out :: "Heap \<Rightarrow> char \<Rightarrow> int" where
  "cap_out h v = (\<Sum>e<edge_count h. if source (edge_at h e) = v then capacity (edge_at h e) else 0)"

text \<open>\<open>+1\<close> when the edge leaves \<open>v\<close>, \<open>-1\<close> when it enters \<open>v\<close>.\<close>

definition incidence :: "Heap \<Rightarrow> nat \<Rightarrow> char \<Rightarrow> int" where
  "incidence h e v =
     (if source (edge_at h e) = v then 1 else 0) - (if target (edge_at h e) = v then 1 else 0)"

text \<open>The residual graph of an input of \<open>n\<close> edges: the first \<open>n\<close> edges are the edges of
  the input, the others are reverse edges.\<close>

definition residual_of :: "nat \<Rightarrow> Heap \<Rightarrow> bool" where
  "residual_of n h0 \<longleftrightarrow>
     residual_ok h0 \<and> (\<forall>x < edge_count h0. isReverseEdge (edge_at h0 x) \<longleftrightarrow> n \<le> x)"

text \<open>An augmenting path from \<open>s\<close> to \<open>t\<close>: a non-empty chain of edges of the graph, each
  with residual capacity, that visits no vertex twice.\<close>

definition augmenting_path :: "Heap \<Rightarrow> char \<Rightarrow> char \<Rightarrow> Path \<Rightarrow> bool" where
  "augmenting_path h s t p \<longleftrightarrow>
     p \<noteq> [] \<and> is_walk h s p t \<and> (\<forall>e \<in> set p. 0 < capacity (edge_at h e)) \<and>
     distinct (s # map (\<lambda>e. target (edge_at h e)) p)"

text \<open>The input of the scenario of the specification: \<open>S \<rightarrow> A\<close> of capacity 3 and
  \<open>A \<rightarrow> T\<close> of capacity 2.\<close>

definition scenario :: Input where
  "scenario = (CHR ''S'', CHR ''T'', [(CHR ''S'', CHR ''A'', 3), (CHR ''A'', CHR ''T'', 2)])"

text \<open>A single edge from the source to the target.\<close>

definition direct_edge :: Input where
  "direct_edge = (CHR ''S'', CHR ''T'', [(CHR ''S'', CHR ''T'', 1)])"

text \<open>Two disjoint paths from \<open>S\<close> to \<open>T\<close>, each of the capacity \<open>2^31 - 1\<close>, the largest
  \<^verbatim>\<open>int\<close>.\<close>

definition two_full_paths :: Input where
  "two_full_paths =
     (CHR ''S'', CHR ''T'',
      [(CHR ''S'', CHR ''A'', 2147483647), (CHR ''A'', CHR ''T'', 2147483647),
       (CHR ''S'', CHR ''B'', 2147483647), (CHR ''B'', CHR ''T'', 2147483647)])"

text \<open>A single edge of negative capacity.\<close>

definition negative_capacity :: Input where
  "negative_capacity = (CHR ''S'', CHR ''T'', [(CHR ''S'', CHR ''T'', - 5)])"

text \<open>The heaps at the head of the \<^verbatim>\<open>while\<close> loop of \<^verbatim>\<open>findMaxFlow\<close>, started on the heap
  \<open>h\<close>: the heap after \<^verbatim>\<open>addReverseEdges\<close>, and the heap after every round of the loop.\<close>

inductive loop_head :: "Graph \<Rightarrow> Heap \<Rightarrow> Heap \<Rightarrow> bool" for graph :: Graph and h :: Heap where
  start: "addReverseEdges graph h = Inr h0 \<Longrightarrow> loop_head graph h h0"
| round: "loop_head graph h h1 \<Longrightarrow>
          findPath h1 (graph_source graph) (graph_target graph) = Some (h2, path, True) \<Longrightarrow>
          findMinCapacity h2 path = Inr minCapacity \<Longrightarrow>
          changeFlow path minCapacity h2 = Inr h3 \<Longrightarrow>
          loop_head graph h h3"

text \<open>The states at the head of the \<^verbatim>\<open>while\<close> loop of \<^verbatim>\<open>findMaxFlow\<close>, started on the heap
  \<open>h\<close>: the heap together with the value of the variable \<^verbatim>\<open>maxFlow\<close>, which starts at 0 and
  to which every round adds the bottleneck with \<^verbatim>\<open>maxFlow += minCapacity\<close>.\<close>

inductive loop_state :: "Graph \<Rightarrow> Heap \<Rightarrow> Heap \<Rightarrow> int \<Rightarrow> bool"
  for graph :: Graph and h :: Heap where
  start: "addReverseEdges graph h = Inr h0 \<Longrightarrow> loop_state graph h h0 0"
| round: "loop_state graph h h1 maxFlow \<Longrightarrow>
          findPath h1 (graph_source graph) (graph_target graph) = Some (h2, path, True) \<Longrightarrow>
          findMinCapacity h2 path = Inr minCapacity \<Longrightarrow>
          changeFlow path minCapacity h2 = Inr h3 \<Longrightarrow>
          loop_state graph h h3 (int32 (maxFlow + minCapacity))"

text \<open>What every heap at the head of the loop satisfies, relative to the heap \<open>h0\<close> after
  residual construction.\<close>

definition driver_inv :: "Graph \<Rightarrow> Heap \<Rightarrow> Heap \<Rightarrow> bool" where
  "driver_inv graph h0 h \<longleftrightarrow>
     same_struct h0 h \<and> pair_inv h0 h \<and>
     (\<forall>v. v \<noteq> graph_source graph \<longrightarrow> \<not> inPath (vertex_at h v))"

text \<open>Net flow out of a vertex on the edges of the input.\<close>

definition net_flow :: "nat \<Rightarrow> Heap \<Rightarrow> char \<Rightarrow> int" where
  "net_flow n h v = outflow n h v - inflow n h v"

text \<open>The value of every flow that the loop can reach fits an \<^verbatim>\<open>int\<close>.\<close>

definition value_fits :: "nat \<Rightarrow> Graph \<Rightarrow> Heap \<Rightarrow> bool" where
  "value_fits n graph h0 \<longleftrightarrow>
     (\<forall>h. driver_inv graph h0 h \<and>
          (\<forall>v. v \<noteq> graph_source graph \<and> v \<noteq> graph_target graph \<longrightarrow> net_flow n h v = 0) \<longrightarrow>
          net_flow n h (graph_source graph) < 2 ^ 31)"

text \<open>What the loop of \<^verbatim>\<open>findMaxFlow\<close> has established when it returns the heap \<open>hf\<close> and
  the value \<open>mff\<close>, having started from the heap \<open>h\<close> with the value \<open>mf\<close>.\<close>

definition loop_post :: "nat \<Rightarrow> Graph \<Rightarrow> Heap \<Rightarrow> Heap \<Rightarrow> int \<Rightarrow> Heap \<Rightarrow> int \<Rightarrow> bool" where
  "loop_post n graph h0 h mf hf mff \<longleftrightarrow>
     driver_inv graph h0 hf \<and>
     (\<forall>q. \<not> augmenting_path hf (graph_source graph) (graph_target graph) q) \<and>
     (\<forall>v. v \<noteq> graph_source graph \<and> v \<noteq> graph_target graph \<longrightarrow>
          net_flow n hf v = net_flow n h v) \<and>
     (value_fits n graph h0 \<and> 0 \<le> mf \<and> mf = net_flow n h (graph_source graph) \<and>
      (\<forall>v. v \<noteq> graph_source graph \<and> v \<noteq> graph_target graph \<longrightarrow> net_flow n h v = 0) \<longrightarrow>
        mff = net_flow n hf (graph_source graph))"

text \<open>The capacities of an input fit a C++ \<^verbatim>\<open>int\<close>.\<close>

definition int_capacities :: "(char \<times> char \<times> int) list \<Rightarrow> bool" where
  "int_capacities es \<longleftrightarrow> (\<forall>x \<in> set es. - (2 ^ 31) \<le> snd (snd x) \<and> snd (snd x) < 2 ^ 31)"

text \<open>The capacities of an input are non-negative and fit a C++ \<^verbatim>\<open>int\<close>.\<close>

definition nonneg_capacities :: "(char \<times> char \<times> int) list \<Rightarrow> bool" where
  "nonneg_capacities es \<longleftrightarrow> (\<forall>x \<in> set es. 0 \<le> snd (snd x) \<and> snd (snd x) < 2 ^ 31)"

text \<open>The total capacity of the input edges that leave a vertex.\<close>

definition capacity_out :: "(char \<times> char \<times> int) list \<Rightarrow> char \<Rightarrow> int" where
  "capacity_out es v = (\<Sum>e<length es. if fst (es ! e) = v then snd (snd (es ! e)) else 0)"

text \<open>An input with an edge in both directions between \<open>A\<close> and \<open>B\<close>.\<close>

definition antiparallel :: Input where
  "antiparallel = (CHR ''A'', CHR ''B'', [(CHR ''A'', CHR ''B'', 1), (CHR ''B'', CHR ''A'', 1)])"

text \<open>An input whose source is its target.\<close>

definition source_is_target :: Input where
  "source_is_target = (CHR ''S'', CHR ''S'', [(CHR ''S'', CHR ''T'', 3)])"

text \<open>Flow assignments on the edges of an input: \<open>f e\<close> is the flow on the \<open>e\<close>-th edge.\<close>

definition flow_out :: "(char \<times> char \<times> int) list \<Rightarrow> (nat \<Rightarrow> int) \<Rightarrow> char \<Rightarrow> int" where
  "flow_out es f v = (\<Sum>e<length es. if fst (es ! e) = v then f e else 0)"

definition flow_in :: "(char \<times> char \<times> int) list \<Rightarrow> (nat \<Rightarrow> int) \<Rightarrow> char \<Rightarrow> int" where
  "flow_in es f v = (\<Sum>e<length es. if fst (snd (es ! e)) = v then f e else 0)"

text \<open>A valid flow respects the capacities and is conserved at every vertex other than the
  source and the target; its value is the net flow that leaves the source.\<close>

definition valid_flow :: "char \<Rightarrow> char \<Rightarrow> (char \<times> char \<times> int) list \<Rightarrow> (nat \<Rightarrow> int) \<Rightarrow> bool" where
  "valid_flow s t es f \<longleftrightarrow>
     (\<forall>e < length es. 0 \<le> f e \<and> f e \<le> snd (snd (es ! e))) \<and>
     (\<forall>v. v \<noteq> s \<and> v \<noteq> t \<longrightarrow> flow_in es f v = flow_out es f v)"

definition flow_value :: "char \<Rightarrow> (char \<times> char \<times> int) list \<Rightarrow> (nat \<Rightarrow> int) \<Rightarrow> int" where
  "flow_value s es f = flow_out es f s - flow_in es f s"

text \<open>The flow across a cut: from the side \<open>R\<close> to the other side, and back.\<close>

definition cut_forward :: "(char \<times> char \<times> int) list \<Rightarrow> char set \<Rightarrow> (nat \<Rightarrow> int) \<Rightarrow> int" where
  "cut_forward es R f =
     (\<Sum>e<length es. if fst (es ! e) \<in> R \<and> fst (snd (es ! e)) \<notin> R then f e else 0)"

definition cut_backward :: "(char \<times> char \<times> int) list \<Rightarrow> char set \<Rightarrow> (nat \<Rightarrow> int) \<Rightarrow> int" where
  "cut_backward es R f =
     (\<Sum>e<length es. if fst (es ! e) \<notin> R \<and> fst (snd (es ! e)) \<in> R then f e else 0)"

text \<open>The vertices that an augmenting path reaches from \<open>s\<close>, and \<open>s\<close> itself.\<close>

definition reachable :: "Heap \<Rightarrow> char \<Rightarrow> char set" where
  "reachable h s = {v. v = s \<or> (\<exists>p. augmenting_path h s v p)}"

section \<open>Proofs\<close>

subsection \<open>Heap updates\<close>

lemma set_inPath_simps [simp]:
  "edge_at (set_inPath v b h) = edge_at h"
  "edge_count (set_inPath v b h) = edge_count h"
  "name (vertex_at (set_inPath v b h) u) = name (vertex_at h u)"
  "edges (vertex_at (set_inPath v b h) u) = edges (vertex_at h u)"
  "inPath (vertex_at (set_inPath v b h) u) = (if u = v then b else inPath (vertex_at h u))"
  by (simp_all add: set_inPath_def)

lemma unmarked_mark:
  assumes "\<not> inPath (vertex_at h v)"
  shows "unmarked (set_inPath v True h) < unmarked h"
proof -
  have "{u. \<not> inPath (vertex_at (set_inPath v True h) u)} = {u. \<not> inPath (vertex_at h u)} - {v}"
    by auto
  moreover have "v \<in> {u. \<not> inPath (vertex_at h u)}" using assms by simp
  ultimately show ?thesis
    unfolding unmarked_def using card_Diff1_less[of "{u. \<not> inPath (vertex_at h u)}" v] by simp
qed

lemma unmarked_cong:
  "(\<And>u. inPath (vertex_at h' u) = inPath (vertex_at h u)) \<Longrightarrow> unmarked h' = unmarked h"
  by (simp add: unmarked_def)

lemma findPath_loop_Nil: "findPath_loop h src tgt [] path = Some (set_inPath src False h, path, False)"
  by (subst findPath_loop.simps) simp

lemmas findPath_loop_Cons = findPath_loop.simps[of _ _ _ "e # es" for e es, simplified list.case]

lemma findPath_loop_total_aux:
  "unmarked h < n \<Longrightarrow>
   \<exists>h' p' f. findPath_loop h src tgt es path = Some (h', p', f) \<and> search_frame h src h'"
proof (induction n arbitrary: h src es path)
  case 0
  then show ?case by simp
next
  case (Suc n)
  from Suc.prems show ?case
  proof (induction es arbitrary: h path)
    case Nil
    show ?case by (auto simp: findPath_loop_Nil search_frame_def same_graph_def)
  next
    case (Cons e es)
    let ?v = "target (edge_at h e)"
    show ?case
    proof (cases "\<not> inPath (vertex_at h ?v) \<and> capacity (edge_at h e) > 0")
      case False
      from Cons.IH[OF Cons.prems, of path] False show ?thesis
        by (subst findPath_loop_Cons) auto
    next
      case True
      show ?thesis
      proof (cases "?v = tgt")
        case True
        with \<open>\<not> inPath (vertex_at h ?v) \<and> capacity (edge_at h e) > 0\<close> show ?thesis
          by (subst findPath_loop_Cons) (auto simp: search_frame_def same_graph_def)
      next
        case False
        let ?hm = "set_inPath ?v True h"
        have "unmarked ?hm < unmarked h" using True by (simp add: unmarked_mark)
        with Cons.prems have "unmarked ?hm < n" by simp
        from Suc.IH[OF this, of ?v "rev (edges (vertex_at ?hm ?v))" "path @ [e]"]
        obtain h1 p2 f where
          nested: "findPath_loop ?hm ?v tgt (rev (edges (vertex_at ?hm ?v))) (path @ [e]) = Some (h1, p2, f)"
          and fr1: "search_frame ?hm ?v h1" by blast
        let ?h2 = "set_inPath ?v False h1"
        have e1: "edge_at h1 = edge_at h" using fr1 by (simp add: search_frame_def same_graph_def)
        have marks: "\<And>u. inPath (vertex_at ?h2 u) = inPath (vertex_at h u)"
          using fr1 True by (auto simp: search_frame_def)
        have sg2: "same_graph h ?h2" using fr1 by (simp add: search_frame_def same_graph_def)
        show ?thesis
        proof (cases f)
          case True
          have "findPath_loop h src tgt (e # es) path = Some (set_inPath src False ?h2, p2, True)"
            using \<open>\<not> inPath (vertex_at h ?v) \<and> capacity (edge_at h e) > 0\<close> \<open>?v \<noteq> tgt\<close> nested True e1
            by (subst findPath_loop_Cons) (simp add: Let_def)
          moreover have "search_frame h src (set_inPath src False ?h2)"
            using sg2 marks by (simp add: search_frame_def same_graph_def)
          ultimately show ?thesis by blast
        next
          case False
          have "unmarked ?h2 = unmarked h" using marks by (rule unmarked_cong)
          with Cons.prems have "unmarked ?h2 < Suc n" by simp
          from Cons.IH[OF this, of "butlast p2"]
          obtain h' p' f' where
            rest: "findPath_loop ?h2 src tgt es (butlast p2) = Some (h', p', f')"
            and fr2: "search_frame ?h2 src h'" by blast
          have "findPath_loop h src tgt (e # es) path = Some (h', p', f')"
            using \<open>\<not> inPath (vertex_at h ?v) \<and> capacity (edge_at h e) > 0\<close> \<open>?v \<noteq> tgt\<close> nested False e1 rest
            by (subst findPath_loop_Cons) (simp add: Let_def)
          moreover have "search_frame h src h'"
            using sg2 marks fr2 by (simp add: search_frame_def same_graph_def)
          ultimately show ?thesis by blast
        qed
      qed
    qed
  qed
qed

lemma findPath_loop_total:
  "\<exists>h' p' f. findPath_loop h src tgt es path = Some (h', p', f) \<and> search_frame h src h'"
  using findPath_loop_total_aux[of h "Suc (unmarked h)"] by simp

lemma findPath_loop_Skip:
  "\<not> (\<not> inPath (vertex_at h (target (edge_at h e))) \<and> capacity (edge_at h e) > 0) \<Longrightarrow>
   findPath_loop h src tgt (e # es) path = findPath_loop h src tgt es path"
  by (subst findPath_loop_Cons) auto

lemma findPath_loop_Hit:
  "\<not> inPath (vertex_at h (target (edge_at h e))) \<Longrightarrow> capacity (edge_at h e) > 0 \<Longrightarrow>
   target (edge_at h e) = tgt \<Longrightarrow>
   findPath_loop h src tgt (e # es) path = Some (h, path @ [e], True)"
  by (subst findPath_loop_Cons) auto

lemma findPath_loop_Descend:
  assumes "\<not> inPath (vertex_at h v)" "capacity (edge_at h e) > 0" "v = target (edge_at h e)"
    "v \<noteq> tgt" "hm = set_inPath v True h"
    "findPath_loop hm v tgt (rev (edges (vertex_at h v))) (path @ [e]) = Some (h1, p2, f)"
    "edge_at h1 = edge_at h"
  shows "findPath_loop h src tgt (e # es) path =
     (if f then Some (set_inPath src False (set_inPath v False h1), p2, True)
      else findPath_loop (set_inPath v False h1) src tgt es (butlast p2))"
  using assms by (subst findPath_loop_Cons) (simp add: Let_def)

lemma findPath_loop_induct_aux:
  assumes Nil: "\<And>h src path. P h src [] path"
    and Skip: "\<And>h src e es path.
      \<not> (\<not> inPath (vertex_at h (target (edge_at h e))) \<and> capacity (edge_at h e) > 0) \<Longrightarrow>
      P h src es path \<Longrightarrow> P h src (e # es) path"
    and Hit: "\<And>h src e es path.
      \<not> inPath (vertex_at h (target (edge_at h e))) \<Longrightarrow> capacity (edge_at h e) > 0 \<Longrightarrow>
      target (edge_at h e) = tgt \<Longrightarrow> P h src (e # es) path"
    and Descend: "\<And>h src e es path v hm h1 p2 f.
      \<not> inPath (vertex_at h v) \<Longrightarrow> capacity (edge_at h e) > 0 \<Longrightarrow>
      v = target (edge_at h e) \<Longrightarrow> v \<noteq> tgt \<Longrightarrow> hm = set_inPath v True h \<Longrightarrow>
      P hm v (rev (edges (vertex_at h v))) (path @ [e]) \<Longrightarrow>
      findPath_loop hm v tgt (rev (edges (vertex_at h v))) (path @ [e]) = Some (h1, p2, f) \<Longrightarrow>
      search_frame hm v h1 \<Longrightarrow>
      (\<not> f \<Longrightarrow> P (set_inPath v False h1) src es (butlast p2)) \<Longrightarrow>
      P h src (e # es) path"
  shows "unmarked h < n \<Longrightarrow> P h src es path"
  proof (induction n arbitrary: h src es path)
    case 0
    then show ?case by simp
  next
    case (Suc n)
    have "\<forall>h path. unmarked h < Suc n \<longrightarrow> P h src es path"
    proof (induction es)
      case Nil
      show ?case by (simp add: assms(1))
    next
      case (Cons e es)
      show ?case
      proof (intro allI impI)
      fix h path
      assume prem: "unmarked h < Suc n"
      let ?v = "target (edge_at h e)"
      show "P h src (e # es) path"
      proof (cases "\<not> inPath (vertex_at h ?v) \<and> capacity (edge_at h e) > 0")
        case False
        then show ?thesis using Cons.IH[rule_format, OF prem] by (rule Skip)
      next
        case True
        show ?thesis
        proof (cases "?v = tgt")
          case True
          with \<open>\<not> inPath (vertex_at h ?v) \<and> capacity (edge_at h e) > 0\<close> show ?thesis
            by (intro Hit) auto
        next
          case False
          let ?hm = "set_inPath ?v True h"
          have "unmarked ?hm < unmarked h" using True by (simp add: unmarked_mark)
          with prem have lt: "unmarked ?hm < n" by simp
          obtain h1 p2 f where
            nested: "findPath_loop ?hm ?v tgt (rev (edges (vertex_at h ?v))) (path @ [e]) = Some (h1, p2, f)"
            and fr1: "search_frame ?hm ?v h1"
            using findPath_loop_total[of ?hm ?v tgt "rev (edges (vertex_at h ?v))" "path @ [e]"] by blast
          have marks: "\<And>u. inPath (vertex_at (set_inPath ?v False h1) u) = inPath (vertex_at h u)"
            using fr1 True by (auto simp: search_frame_def)
          have "unmarked (set_inPath ?v False h1) = unmarked h" using marks by (rule unmarked_cong)
          with prem have "unmarked (set_inPath ?v False h1) < Suc n" by simp
          from Cons.IH[rule_format, OF this, of "butlast p2"]
          have "P (set_inPath ?v False h1) src es (butlast p2)" .
          with True False Suc.IH[OF lt] nested fr1 show ?thesis
            by (intro Descend[where v = ?v and hm = ?hm and ?h1.0 = h1 and ?p2.0 = p2 and f = f]) auto
        qed
      qed
      qed
    qed
    with Suc.prems show ?case by blast
  qed

lemma findPath_loop_induct [case_names Nil Skip Hit Descend]:
  assumes Nil: "\<And>h src path. P h src [] path"
    and Skip: "\<And>h src e es path.
      \<not> (\<not> inPath (vertex_at h (target (edge_at h e))) \<and> capacity (edge_at h e) > 0) \<Longrightarrow>
      P h src es path \<Longrightarrow> P h src (e # es) path"
    and Hit: "\<And>h src e es path.
      \<not> inPath (vertex_at h (target (edge_at h e))) \<Longrightarrow> capacity (edge_at h e) > 0 \<Longrightarrow>
      target (edge_at h e) = tgt \<Longrightarrow> P h src (e # es) path"
    and Descend: "\<And>h src e es path v hm h1 p2 f.
      \<not> inPath (vertex_at h v) \<Longrightarrow> capacity (edge_at h e) > 0 \<Longrightarrow>
      v = target (edge_at h e) \<Longrightarrow> v \<noteq> tgt \<Longrightarrow> hm = set_inPath v True h \<Longrightarrow>
      P hm v (rev (edges (vertex_at h v))) (path @ [e]) \<Longrightarrow>
      findPath_loop hm v tgt (rev (edges (vertex_at h v))) (path @ [e]) = Some (h1, p2, f) \<Longrightarrow>
      search_frame hm v h1 \<Longrightarrow>
      (\<not> f \<Longrightarrow> P (set_inPath v False h1) src es (butlast p2)) \<Longrightarrow>
      P h src (e # es) path"
  shows "P h src es path"
  using findPath_loop_induct_aux[of P tgt h "Suc (unmarked h)" src es path, OF assms] by simp

subsection \<open>Walks\<close>

lemma is_walk_same_graph: "same_graph h h' \<Longrightarrow> is_walk h' u q w = is_walk h u q w"
  by (induction q arbitrary: u) (auto simp: same_graph_def)

lemma adj_ok_same_graph: "same_graph h h' \<Longrightarrow> adj_ok h' = adj_ok h"
  by (auto simp: same_graph_def adj_ok_def)

lemma same_graph_refl [simp]: "same_graph h h"
  by (simp add: same_graph_def)

lemma same_graph_trans: "same_graph h h' \<Longrightarrow> same_graph h' h'' \<Longrightarrow> same_graph h h''"
  by (simp add: same_graph_def)

lemma same_graph_set_inPath [simp]: "same_graph h (set_inPath v b h)"
  by (simp add: same_graph_def)

lemma same_graph_set_inPath2: "same_graph h h' \<Longrightarrow> same_graph h (set_inPath v b h')"
  by (simp add: same_graph_def)

lemma findPath_loop_sound:
  assumes "findPath_loop h src tgt es path = Some (h', p', f)"
    and "adj_ok h" and "set es \<subseteq> set (edges (vertex_at h src))"
  shows "(\<not> f \<longrightarrow> p' = path \<and> \<not> inPath (vertex_at h' src)) \<and>
         (f \<longrightarrow> (\<exists>q. p' = path @ q \<and> found_path h src tgt es q \<and>
                 (inPath (vertex_at h' src) \<longleftrightarrow> length q = 1 \<and> inPath (vertex_at h src))))"
  using assms
proof (induction h src es path arbitrary: h' p' f rule: findPath_loop_induct[where tgt = tgt])
  case (Nil h src path)
  then show ?case by (auto simp: findPath_loop_Nil)
next
  case (Skip h src e es path)
  from Skip.prems(1) Skip.hyps have "findPath_loop h src tgt es path = Some (h', p', f)"
    by (simp add: findPath_loop_Skip)
  from Skip.IH[OF this] Skip.prems show ?case
    by (auto simp: found_path_def)
next
  case (Hit h src e es path)
  from Hit.prems(1) Hit.hyps have "h' = h" "p' = path @ [e]" "f"
    by (simp_all add: findPath_loop_Hit)
  moreover have "found_path h src tgt (e # es) [e]"
    using Hit.hyps Hit.prems by (auto simp: found_path_def adj_ok_def)
  ultimately show ?case by auto
next
  case (Descend h src e es path v hm h1 p2 f1)
  have sg: "same_graph hm h1" and e1: "edge_at h1 = edge_at h"
    using Descend.hyps by (auto simp: search_frame_def same_graph_def)
  have sgh: "same_graph h hm" using Descend.hyps by simp
  have unfold: "findPath_loop h src tgt (e # es) path =
     (if f1 then Some (set_inPath src False (set_inPath v False h1), p2, True)
      else findPath_loop (set_inPath v False h1) src tgt es (butlast p2))"
    using Descend.hyps e1 by (intro findPath_loop_Descend) auto
  have nested: "(\<not> f1 \<longrightarrow> p2 = (path @ [e]) \<and> \<not> inPath (vertex_at h1 v)) \<and>
         (f1 \<longrightarrow> (\<exists>q. p2 = (path @ [e]) @ q \<and> found_path hm v tgt (rev (edges (vertex_at h v))) q \<and>
                 (inPath (vertex_at h1 v) \<longleftrightarrow> length q = 1 \<and> inPath (vertex_at hm v))))"
    using Descend.prems(2) Descend.hyps(5)
    by (intro Descend.IH(1)[OF Descend.hyps(6)]) (auto simp: adj_ok_def)
  show ?case
  proof (cases f1)
    case True
    with nested obtain q where q: "p2 = (path @ [e]) @ q" "found_path hm v tgt (rev (edges (vertex_at h v))) q"
      by blast
    from True unfold Descend.prems(1) have res: "h' = set_inPath src False (set_inPath v False h1)" "p' = p2" "f"
      by simp_all
    have walk: "is_walk h v q tgt" using q(2) sgh by (simp add: found_path_def is_walk_same_graph)
    have ein: "e \<in> set (edges (vertex_at h src))" using Descend.prems(3) by simp
    then have "source (edge_at h e) = src" using Descend.prems(2) by (auto simp: adj_ok_def)
    with walk ein Descend.hyps(3) have w2: "is_walk h src (e # q) tgt" by simp
    have marks: "\<forall>x \<in> set q. tgt_of h x \<noteq> v \<and> \<not> inPath (vertex_at h (tgt_of h x))"
      using q(2) Descend.hyps(5) by (auto simp: found_path_def split: if_splits)
    have "found_path h src tgt (e # es) (e # q)"
      using w2 marks q(2) Descend.hyps(1,2,3,5) by (auto simp: found_path_def)
    moreover have "p' = path @ (e # q)" using res q by simp
    moreover have "\<not> inPath (vertex_at h' src)" using res by simp
    moreover have "length (e # q) \<noteq> 1" using q(2) by (simp add: found_path_def)
    ultimately show ?thesis using res(3) by blast
  next
    case False
    with nested have p2: "butlast p2 = path" by simp
    let ?h2 = "set_inPath v False h1"
    from False unfold Descend.prems(1) p2 have rest: "findPath_loop ?h2 src tgt es path = Some (h', p', f)"
      by simp
    have sg2: "same_graph h ?h2" using sg sgh by (auto simp: same_graph_def)
    have marks: "\<And>u. inPath (vertex_at ?h2 u) = inPath (vertex_at h u)"
      using Descend.hyps by (auto simp: search_frame_def)
    have ih: "(\<not> f \<longrightarrow> p' = path \<and> \<not> inPath (vertex_at h' src)) \<and>
         (f \<longrightarrow> (\<exists>q. p' = path @ q \<and> found_path ?h2 src tgt es q \<and>
                 (inPath (vertex_at h' src) \<longleftrightarrow> length q = 1 \<and> inPath (vertex_at ?h2 src))))"
    proof (rule Descend.IH(2)[unfolded p2, OF False rest])
      show "adj_ok ?h2" using Descend.prems(2) sg2 by (simp add: adj_ok_same_graph)
      show "set es \<subseteq> set (edges (vertex_at ?h2 src))" using Descend.prems(3) sg2
        by (simp add: same_graph_def)
    qed
    have e2: "edge_at ?h2 = edge_at h" using e1 by simp
    have fp: "found_path ?h2 src tgt es q \<Longrightarrow> found_path h src tgt (e # es) q" for q
      unfolding found_path_def is_walk_same_graph[OF sg2] e2 marks by auto
    show ?thesis using ih fp marks by auto
  qed
qed

lemma findPath_loop_complete:
  assumes "findPath_loop h src tgt es path = Some (h', p', False)"
    and "found_path h src tgt es q"
  shows False
  using assms
proof (induction h src es path arbitrary: h' p' q rule: findPath_loop_induct[where tgt = tgt])
  case (Nil h src path)
  then show ?case by (simp add: found_path_def)
next
  case (Skip h src e es path)
  from Skip.prems(1) Skip.hyps have rest: "findPath_loop h src tgt es path = Some (h', p', False)"
    by (simp add: findPath_loop_Skip)
  have "hd q \<noteq> e"
  proof
    assume "hd q = e"
    with Skip.prems(2) have "e \<in> set q" by (cases q) (auto simp: found_path_def)
    with Skip.prems(2) Skip.hyps show False by (auto simp: found_path_def)
  qed
  with Skip.prems(2) have "found_path h src tgt es q" by (auto simp: found_path_def)
  with rest show ?case by (rule Skip.IH)
next
  case (Hit h src e es path)
  then show ?case by (simp add: findPath_loop_Hit)
next
  case (Descend h src e es path v hm h1 p2 f1)
  have sg: "same_graph hm h1" and e1: "edge_at h1 = edge_at h"
    using Descend.hyps by (auto simp: search_frame_def same_graph_def)
  have sgh: "same_graph h hm" using Descend.hyps by simp
  have unfold: "findPath_loop h src tgt (e # es) path =
     (if f1 then Some (set_inPath src False (set_inPath v False h1), p2, True)
      else findPath_loop (set_inPath v False h1) src tgt es (butlast p2))"
    using Descend.hyps e1 by (intro findPath_loop_Descend) auto
  from unfold Descend.prems(1) have nf: "\<not> f1" by (auto split: if_splits)
  let ?h2 = "set_inPath v False h1"
  from unfold Descend.prems(1) nf
  have rest: "findPath_loop ?h2 src tgt es (butlast p2) = Some (h', p', False)" by simp
  have sg2: "same_graph h ?h2" using sg sgh by (auto simp: same_graph_def)
  have marks: "\<And>u. inPath (vertex_at ?h2 u) = inPath (vertex_at h u)"
    using Descend.hyps by (auto simp: search_frame_def)
  have e2: "edge_at ?h2 = edge_at h" using e1 by simp
  show ?case
  proof (cases "hd q = e")
    case False
    with Descend.prems(2) have "found_path ?h2 src tgt es q"
      unfolding found_path_def is_walk_same_graph[OF sg2] e2 marks by auto
    with nf rest show ?thesis by (rule Descend.IH(2))
  next
    case True
    with Descend.prems(2) obtain q' where q: "q = e # q'"
      by (cases q) (auto simp: found_path_def)
    from Descend.prems(2) q Descend.hyps(3) have walk: "is_walk h v q' tgt"
      by (simp add: found_path_def)
    with Descend.hyps(4) obtain x q'' where q': "q' = x # q''" by (cases q') auto
    with walk have "x \<in> set (edges (vertex_at h v))" by simp
    moreover have "is_walk hm v q' tgt" using walk sgh by (simp add: is_walk_same_graph)
    moreover have "\<forall>y \<in> set q'. \<not> inPath (vertex_at hm (tgt_of hm y))"
    proof
      fix y assume y: "y \<in> set q'"
      with Descend.prems(2) q have "\<not> inPath (vertex_at h (tgt_of h y))"
        by (simp add: found_path_def)
      moreover have "tgt_of h y \<noteq> v"
      proof
        assume "tgt_of h y = v"
        with y Descend.hyps(3) have "tgt_of h e \<in> tgt_of h ` set q'" by (metis imageI)
        with Descend.prems(2) q show False by (simp add: found_path_def)
      qed
      ultimately show "\<not> inPath (vertex_at hm (tgt_of hm y))"
        using Descend.hyps(5) by simp
    qed
    ultimately have "found_path hm v tgt (rev (edges (vertex_at h v))) q'"
      using Descend.prems(2) q q' Descend.hyps(5) by (auto simp: found_path_def)
    moreover from Descend.hyps(6) nf
    have "findPath_loop hm v tgt (rev (edges (vertex_at h v))) (path @ [e]) = Some (h1, p2, False)"
      by simp
    ultimately show ?thesis using Descend.IH(1) by blast
  qed
qed

subsection \<open>Reading the graph\<close>

lemma set_edges_simps [simp]:
  "edge_at (set_edges v es h) = edge_at h"
  "edge_count (set_edges v es h) = edge_count h"
  "name (vertex_at (set_edges v es h) u) = name (vertex_at h u)"
  "inPath (vertex_at (set_edges v es h) u) = inPath (vertex_at h u)"
  "edges (vertex_at (set_edges v es h) u) = (if u = v then es else edges (vertex_at h u))"
  by (simp_all add: set_edges_def)

lemma new_Edge_simps [simp]:
  "vertex_at (new_Edge E h) = vertex_at h"
  "edge_count (new_Edge E h) = Suc (edge_count h)"
  "edge_at (new_Edge E h) x = (if x = edge_count h then E else edge_at h x)"
  by (simp_all add: new_Edge_def)

lemma set_reverseEdge_simps [simp]:
  "vertex_at (set_reverseEdge e r h) = vertex_at h"
  "edge_count (set_reverseEdge e r h) = edge_count h"
  "source (edge_at (set_reverseEdge e r h) x) = source (edge_at h x)"
  "target (edge_at (set_reverseEdge e r h) x) = target (edge_at h x)"
  "capacity (edge_at (set_reverseEdge e r h) x) = capacity (edge_at h x)"
  "flow (edge_at (set_reverseEdge e r h) x) = flow (edge_at h x)"
  "isReverseEdge (edge_at (set_reverseEdge e r h) x) = isReverseEdge (edge_at h x)"
  "reverseEdge (edge_at (set_reverseEdge e r h) x) = (if x = e then r else reverseEdge (edge_at h x))"
  by (simp_all add: set_reverseEdge_def)

lemma edgeLess_total: "\<not> edgeLess h a b \<Longrightarrow> \<not> edgeLess h b a \<Longrightarrow> a = b"
  by (auto simp: edgeLess_def split: if_splits)

lemma set_insertEdge [simp]: "set (insertEdge h e xs) = insert e (set xs)"
  by (induction xs) (auto dest: edgeLess_total)

lemma distinct_insertEdge: "e \<notin> set xs \<Longrightarrow> distinct xs \<Longrightarrow> distinct (insertEdge h e xs)"
  by (induction xs) auto

lemma getVertex_props:
  assumes "getVertex c (known, h) = (known', h')"
  shows "set known' = insert c (set known)" "edge_at h' = edge_at h" "edge_count h' = edge_count h"
    "\<And>v. inPath (vertex_at h' v) = (if v = c \<and> c \<notin> set known then False else inPath (vertex_at h v))"
    "\<And>v. edges (vertex_at h' v) = (if v = c \<and> c \<notin> set known then [] else edges (vertex_at h v))"
  using assms by (auto simp: getVertex_def set_insort_key split: if_splits)

lemma getVertex_inv:
  assumes "read_inv (known, h)" "getVertex c (known, h) = (known', h')"
  shows "read_inv (known', h')"
  using assms(1) getVertex_props[OF assms(2)]
  unfolding read_inv_def heap_ok_def by auto

lemma readEdges_step_inv:
  assumes "read_inv (known, h)" "sn \<in> set known" "tn \<in> set known"
  shows "read_inv (known,
     set_edges sn
       (insertEdge
          (new_Edge \<lparr>source = sn, target = tn, capacity = c, flow = 0, isReverseEdge = False,
                     reverseEdge = None\<rparr> h)
          (edge_count h)
          (edges (vertex_at h sn)))
       (new_Edge \<lparr>source = sn, target = tn, capacity = c, flow = 0, isReverseEdge = False,
                     reverseEdge = None\<rparr> h))"
proof -
  have fresh: "\<And>v. edge_count h \<notin> set (edges (vertex_at h v))"
    using assms(1) by (fastforce simp: read_inv_def heap_ok_def)
  show ?thesis
    using assms fresh unfolding read_inv_def heap_ok_def
    by (auto simp: distinct_insertEdge less_Suc_eq)
qed

lemma readEdges_inv: "read_inv st \<Longrightarrow> read_inv (readEdges es st)"
proof (induction es arbitrary: st)
  case Nil
  then show ?case by simp
next
  case (Cons x es)
  obtain sn tn c where x: "x = (sn, tn, c)" by (cases x) auto
  obtain known h where st: "st = (known, h)" by (cases st) auto
  obtain k1 h1 where g1: "getVertex sn (known, h) = (k1, h1)" by (cases "getVertex sn (known, h)") auto
  obtain k2 h2 where g2: "getVertex tn (k1, h1) = (k2, h2)" by (cases "getVertex tn (k1, h1)") auto
  have i1: "read_inv (k1, h1)" using Cons.prems st g1 by (auto intro: getVertex_inv)
  have i2: "read_inv (k2, h2)" using i1 g2 by (auto intro: getVertex_inv)
  have "sn \<in> set k2" "tn \<in> set k2"
    using getVertex_props(1)[OF g1] getVertex_props(1)[OF g2] by auto
  from readEdges_step_inv[OF i2 this, of c] show ?case
    using x st g1 g2 by (simp add: Let_def Cons.IH)
qed

lemma read_inv_empty: "read_inv ([], emptyHeap)"
  by (simp add: read_inv_def heap_ok_def emptyHeap_def)

lemma readEdges_edges:
  assumes "readEdges es (known, h) = (known', h')"
  shows "edge_count h' = edge_count h + length es \<and>
         (\<forall>i < length es. edge_at h' (edge_count h + i) = input_Edge (es ! i)) \<and>
         (\<forall>x < edge_count h. edge_at h' x = edge_at h x) \<and>
         set known' = set known \<union> fst ` set es \<union> (fst \<circ> snd) ` set es"
  using assms
proof (induction es arbitrary: known h)
  case Nil
  then show ?case by simp
next
  case (Cons x es)
  obtain sn tn c where x: "x = (sn, tn, c)" by (cases x) auto
  obtain k1 h1 where g1: "getVertex sn (known, h) = (k1, h1)" by (cases "getVertex sn (known, h)") auto
  obtain k2 h2 where g2: "getVertex tn (k1, h1) = (k2, h2)" by (cases "getVertex tn (k1, h1)") auto
  let ?E = "\<lparr>source = sn, target = tn, capacity = c, flow = 0, isReverseEdge = False,
             reverseEdge = None\<rparr>"
  let ?h3 = "set_edges sn (insertEdge (new_Edge ?E h2) (edge_count h2) (edges (vertex_at h2 sn)))
               (new_Edge ?E h2)"
  from Cons.prems x g1 g2 have "readEdges es (k2, ?h3) = (known', h')"
    by (simp add: Let_def)
  note ih = Cons.IH[OF this]
  have ec: "edge_count h2 = edge_count h" and ea: "edge_at h2 = edge_at h"
    using getVertex_props(2,3)[OF g1] getVertex_props(2,3)[OF g2] by simp_all
  have k2: "set k2 = insert tn (insert sn (set known))"
    using getVertex_props(1)[OF g1] getVertex_props(1)[OF g2] by simp
  have c1: "edge_count h' = edge_count h + length (x # es)" using ih ec by simp
  have c2: "edge_at h' (edge_count h + i) = input_Edge ((x # es) ! i)" if "i < length (x # es)" for i
  proof (cases i)
    case 0
    have "edge_at h' (edge_count h) = edge_at ?h3 (edge_count h)" using ih ec by simp
    then show ?thesis using 0 x ec by (simp add: input_Edge_def)
  next
    case (Suc j)
    with that ih ec show ?thesis by simp
  qed
  have c3: "edge_at h' y = edge_at h y" if "y < edge_count h" for y
    using that ih ec ea by simp
  have c4: "set known' = set known \<union> fst ` set (x # es) \<union> (fst \<circ> snd) ` set (x # es)"
    using ih k2 x by auto
  from c1 c2 c3 c4 show ?case by blast
qed

lemma readGraph_Inr_iff:
  "(\<exists>graph h. readGraph (s, t, es) = Inr (graph, h)) \<longleftrightarrow> s \<in> input_names es \<and> t \<in> input_names es"
proof -
  obtain known h where r: "readEdges es ([], emptyHeap) = (known, h)"
    by (cases "readEdges es ([], emptyHeap)") auto
  from readEdges_edges[OF r] have "set known = input_names es" by (simp add: input_names_def)
  with r show ?thesis by (auto simp: readGraph_def)
qed

lemma readGraph_props:
  assumes "readGraph (s, t, es) = Inr (graph, h)"
  shows "graph_source graph = s" "graph_target graph = t" "set (vertices graph) = input_names es"
    "s \<in> input_names es" "t \<in> input_names es"
    "edge_count h = length es" "\<And>i. i < length es \<Longrightarrow> edge_at h i = input_Edge (es ! i)"
    "read_inv (vertices graph, h)"
proof -
  obtain known h1 where r: "readEdges es ([], emptyHeap) = (known, h1)"
    by (cases "readEdges es ([], emptyHeap)") auto
  from assms r have g: "graph = \<lparr>graph_source = s, graph_target = t, vertices = known\<rparr>" "h = h1"
    and st: "s \<in> set known" "t \<in> set known"
    by (auto simp: readGraph_def split: if_splits)
  note e = readEdges_edges[OF r]
  have ec0: "edge_count emptyHeap = 0" by (simp add: emptyHeap_def)
  from g show "graph_source graph = s" "graph_target graph = t" by simp_all
  from e g show "set (vertices graph) = input_names es" by (simp add: input_names_def)
  with st g show "s \<in> input_names es" "t \<in> input_names es" by simp_all
  from e g ec0 show "edge_count h = length es" by simp
  show "edge_at h i = input_Edge (es ! i)" if "i < length es" for i
    using e g ec0 that by auto
  from readEdges_inv[OF read_inv_empty, of es] r g show "read_inv (vertices graph, h)" by simp
qed

subsection \<open>Residual graph construction\<close>

lemma extends_refl [simp]: "extends h h"
  by (auto simp: extends_def)

lemma extends_old:
  assumes "extends h h'" "x < edge_count h"
  shows "source (edge_at h' x) = source (edge_at h x)" "target (edge_at h' x) = target (edge_at h x)"
    "capacity (edge_at h' x) = capacity (edge_at h x)" "flow (edge_at h' x) = flow (edge_at h x)"
    "isReverseEdge (edge_at h' x) = isReverseEdge (edge_at h x)"
    "reverseEdge (edge_at h x) \<noteq> None \<Longrightarrow> reverseEdge (edge_at h' x) = reverseEdge (edge_at h x)"
  using assms by (simp_all add: extends_def)

lemma extends_new:
  assumes "extends h h'" "edge_count h \<le> x" "x < edge_count h'"
  shows "isReverseEdge (edge_at h' x)" "capacity (edge_at h' x) = 0" "flow (edge_at h' x) = 0"
  using assms by (simp_all add: extends_def)

lemma extends_vertex:
  assumes "extends h h'"
  shows "edge_count h \<le> edge_count h'" "inPath (vertex_at h' v) = inPath (vertex_at h v)"
    "name (vertex_at h' v) = name (vertex_at h v)"
    "set (edges (vertex_at h v)) \<subseteq> set (edges (vertex_at h' v))"
  using assms by (simp_all add: extends_def)

lemma extends_trans:
  assumes a: "extends h h'" and b: "extends h' h''"
  shows "extends h h''"
proof -
  note le1 = extends_vertex(1)[OF a] and le2 = extends_vertex(1)[OF b]
  have old: "source (edge_at h'' x) = source (edge_at h x) \<and>
        target (edge_at h'' x) = target (edge_at h x) \<and>
        capacity (edge_at h'' x) = capacity (edge_at h x) \<and>
        flow (edge_at h'' x) = flow (edge_at h x) \<and>
        isReverseEdge (edge_at h'' x) = isReverseEdge (edge_at h x) \<and>
        (reverseEdge (edge_at h x) \<noteq> None \<longrightarrow>
           reverseEdge (edge_at h'' x) = reverseEdge (edge_at h x))" if "x < edge_count h" for x
  proof -
    from that le1 have x': "x < edge_count h'" by simp
    show ?thesis
      using extends_old[OF a that] extends_old[OF b x'] by auto
  qed
  have new: "isReverseEdge (edge_at h'' x) \<and> capacity (edge_at h'' x) = 0 \<and> flow (edge_at h'' x) = 0"
    if "edge_count h \<le> x \<and> x < edge_count h''" for x
  proof (cases "x < edge_count h'")
    case True
    with that extends_new[OF a, of x] extends_old[OF b True] show ?thesis by simp
  next
    case False
    with that extends_new[OF b, of x] show ?thesis by simp
  qed
  have vert: "inPath (vertex_at h'' v) = inPath (vertex_at h v) \<and>
          name (vertex_at h'' v) = name (vertex_at h v) \<and>
          set (edges (vertex_at h v)) \<subseteq> set (edges (vertex_at h'' v))" for v
    using extends_vertex(2-4)[OF a, of v] extends_vertex(2-4)[OF b, of v] by auto
  from le1 le2 old new vert show ?thesis unfolding extends_def by simp
qed

lemma pairs_okD:
  assumes "pairs_ok h" "reverseEdge (edge_at h e) = Some r"
  shows "e < edge_count h" "r < edge_count h" "reverseEdge (edge_at h r) = Some e"
    "source (edge_at h r) = target (edge_at h e)" "target (edge_at h r) = source (edge_at h e)"
    "isReverseEdge (edge_at h r) = (\<not> isReverseEdge (edge_at h e))"
  using assms unfolding pairs_ok_def by blast+

lemma heap_okD:
  assumes "heap_ok h"
  shows "e \<in> set (edges (vertex_at h v)) \<Longrightarrow> e < edge_count h"
    "e \<in> set (edges (vertex_at h v)) \<Longrightarrow> source (edge_at h e) = v"
    "distinct (edges (vertex_at h v))"
    "e < edge_count h \<Longrightarrow> e \<in> set (edges (vertex_at h (source (edge_at h e))))"
  using assms unfolding heap_ok_def by blast+

text \<open>The heap after the body of \<^verbatim>\<open>addReverseEdges\<close> has given the edge \<open>e\<close> a reverse edge.\<close>

lemma addReverseEdge_None:
  assumes "reverseEdge (edge_at h e) = None" "\<not> isReverseEdge (edge_at h e)" "e < edge_count h"
  shows "\<exists>h'. addReverseEdge e h = Inr h' \<and> edge_count h' = Suc (edge_count h) \<and>
     edge_at h' e = (edge_at h e)\<lparr>reverseEdge := Some (edge_count h)\<rparr> \<and>
     edge_at h' (edge_count h) =
       \<lparr>source = target (edge_at h e), target = source (edge_at h e), capacity = 0, flow = 0,
        isReverseEdge = True, reverseEdge = Some e\<rparr> \<and>
     (\<forall>x. x \<noteq> e \<and> x \<noteq> edge_count h \<longrightarrow> edge_at h' x = edge_at h x) \<and>
     (\<forall>u. inPath (vertex_at h' u) = inPath (vertex_at h u) \<and>
          name (vertex_at h' u) = name (vertex_at h u)) \<and>
     (\<forall>u. u \<noteq> target (edge_at h e) \<longrightarrow> edges (vertex_at h' u) = edges (vertex_at h u)) \<and>
     set (edges (vertex_at h' (target (edge_at h e)))) =
       insert (edge_count h) (set (edges (vertex_at h (target (edge_at h e))))) \<and>
     (edge_count h \<notin> set (edges (vertex_at h (target (edge_at h e)))) \<longrightarrow>
      distinct (edges (vertex_at h (target (edge_at h e)))) \<longrightarrow>
      distinct (edges (vertex_at h' (target (edge_at h e)))))"
  using assms
  by (simp add: addReverseEdge_def Let_def set_reverseEdge_def new_Edge_def set_edges_def
      distinct_insertEdge)

lemma addReverseEdge_step:
  assumes "ar_inv vs (e # es) h"
  shows "\<exists>h'. addReverseEdge e h = Inr h' \<and> ar_inv vs es h' \<and> extends h h' \<and>
              reverseEdge (edge_at h' e) \<noteq> None"
proof (cases "reverseEdge (edge_at h e)")
  case (Some r)
  then have "addReverseEdge e h = Inr h" by (simp add: addReverseEdge_def)
  moreover have "ar_inv vs es h" using assms Some by (auto simp: ar_inv_def)
  ultimately show ?thesis using Some by simp
next
  case None
  let ?r = "edge_count h"
  let ?v = "target (edge_at h e)"
  from assms have ok: "heap_ok h" and po: "pairs_ok h"
    and rv: "\<forall>x. isReverseEdge (edge_at h x) \<longrightarrow> reverseEdge (edge_at h x) \<noteq> None"
    and todo: "\<forall>x < edge_count h. reverseEdge (edge_at h x) = None \<longrightarrow>
        x \<in> set (e # es) \<or> source (edge_at h x) \<in> set vs"
    and bound: "\<forall>x \<in> set (e # es). x < edge_count h"
    by (simp_all add: ar_inv_def)
  from bound have e: "e < ?r" by simp
  from rv None have nrev: "\<not> isReverseEdge (edge_at h e)" by auto
  have fresh: "?r \<notin> set (edges (vertex_at h v))" for v
    using heap_okD(1)[OF ok, of ?r v] by auto
  from addReverseEdge_None[OF None nrev e] obtain h' where
    res: "addReverseEdge e h = Inr h'" and ec: "edge_count h' = Suc ?r"
    and at_e: "edge_at h' e = (edge_at h e)\<lparr>reverseEdge := Some ?r\<rparr>"
    and at_r: "edge_at h' ?r = \<lparr>source = ?v, target = source (edge_at h e), capacity = 0, flow = 0,
        isReverseEdge = True, reverseEdge = Some e\<rparr>"
    and at_x: "\<And>x. x \<noteq> e \<Longrightarrow> x \<noteq> ?r \<Longrightarrow> edge_at h' x = edge_at h x"
    and vx: "\<And>u. inPath (vertex_at h' u) = inPath (vertex_at h u)"
      "\<And>u. name (vertex_at h' u) = name (vertex_at h u)"
    and ed_x: "\<And>u. u \<noteq> ?v \<Longrightarrow> edges (vertex_at h' u) = edges (vertex_at h u)"
    and ed_v: "set (edges (vertex_at h' ?v)) = insert ?r (set (edges (vertex_at h ?v)))"
    and ed_d: "distinct (edges (vertex_at h ?v)) \<Longrightarrow> distinct (edges (vertex_at h' ?v))"
    using fresh[of ?v] by auto
  have src: "source (edge_at h' x) = (if x = ?r then ?v else source (edge_at h x))" for x
    using at_e at_r at_x[of x] e by (cases "x = e"; cases "x = ?r") auto
  have tgt: "x \<noteq> ?r \<Longrightarrow> target (edge_at h' x) = target (edge_at h x)" for x
    using at_e at_x[of x] by (cases "x = e") auto
  have oth: "x \<noteq> ?r \<Longrightarrow> capacity (edge_at h' x) = capacity (edge_at h x) \<and>
      flow (edge_at h' x) = flow (edge_at h x) \<and>
      isReverseEdge (edge_at h' x) = isReverseEdge (edge_at h x)" for x
    using at_e at_x[of x] by (cases "x = e") auto
  have rev: "reverseEdge (edge_at h' x) =
      (if x = e then Some ?r else if x = ?r then Some e else reverseEdge (edge_at h x))" for x
    using at_e at_r at_x[of x] e by (cases "x = e"; cases "x = ?r") auto
  have edges_sub: "set (edges (vertex_at h' u)) \<subseteq> insert ?r (set (edges (vertex_at h u)))"
    and edges_sup: "set (edges (vertex_at h u)) \<subseteq> set (edges (vertex_at h' u))" for u
    using ed_x[of u] ed_v by (cases "u = ?v"; auto)+
  have ok': "heap_ok h'"
    unfolding heap_ok_def
  proof (intro conjI allI ballI impI)
    fix v x assume x: "x \<in> set (edges (vertex_at h' v))"
    show "x < edge_count h'"
    proof (cases "x = ?r")
      case False
      with x edges_sub[of v] have "x \<in> set (edges (vertex_at h v))" by auto
      with heap_okD(1)[OF ok] ec show ?thesis by (simp add: less_Suc_eq)
    qed (simp add: ec)
    show "source (edge_at h' x) = v"
    proof (cases "x = ?r")
      case True
      have "v = ?v"
      proof (rule ccontr)
        assume "v \<noteq> ?v"
        with x ed_x[of v] True fresh[of v] show False by simp
      qed
      with True src show ?thesis by simp
    next
      case False
      with x edges_sub[of v] have "x \<in> set (edges (vertex_at h v))" by auto
      with heap_okD(2)[OF ok] False src show ?thesis by simp
    qed
  next
    fix v
    show "distinct (edges (vertex_at h' v))"
      using heap_okD(3)[OF ok, of v] ed_d ed_x[of v] by (cases "v = ?v") auto
  next
    fix x assume "x < edge_count h'"
    show "x \<in> set (edges (vertex_at h' (source (edge_at h' x))))"
    proof (cases "x = ?r")
      case True
      with src ed_v show ?thesis by simp
    next
      case False
      with \<open>x < edge_count h'\<close> ec have "x < ?r" by simp
      from heap_okD(4)[OF ok this] edges_sup src False show ?thesis by auto
    qed
  qed
  have noref: "reverseEdge (edge_at h x) \<noteq> Some e" for x
    using pairs_okD(3)[OF po, of x e] None by auto
  have noref2: "reverseEdge (edge_at h x) \<noteq> Some ?r" for x
    using pairs_okD(2)[OF po, of x ?r] by auto
  have po': "pairs_ok h'"
    unfolding pairs_ok_def
  proof (intro allI impI)
    fix x y assume xy: "reverseEdge (edge_at h' x) = Some y"
    consider "x = e" "y = ?r" | "x = ?r" "y = e" | "x \<noteq> e" "x \<noteq> ?r" "reverseEdge (edge_at h x) = Some y"
      using xy rev[of x] by (auto split: if_splits)
    then show "x < edge_count h' \<and> y < edge_count h' \<and> reverseEdge (edge_at h' y) = Some x \<and>
        source (edge_at h' y) = target (edge_at h' x) \<and>
        target (edge_at h' y) = source (edge_at h' x) \<and>
        isReverseEdge (edge_at h' y) = (\<not> isReverseEdge (edge_at h' x))"
    proof cases
      case 1
      then show ?thesis using ec e at_e at_r nrev by simp
    next
      case 2
      then show ?thesis using ec e at_e at_r nrev by simp
    next
      case 3
      from 3(3) noref[of x] noref2[of x] have y: "y \<noteq> e" "y \<noteq> ?r" by auto
      from pairs_okD[OF po 3(3)] 3(1,2) y show ?thesis
        using ec at_x[of x] at_x[of y] by simp
    qed
  qed
  have rv': "\<forall>x. isReverseEdge (edge_at h' x) \<longrightarrow> reverseEdge (edge_at h' x) \<noteq> None"
  proof (intro allI impI)
    fix x assume "isReverseEdge (edge_at h' x)"
    then show "reverseEdge (edge_at h' x) \<noteq> None"
      using rev[of x] oth[of x] rv by (cases "x = ?r") auto
  qed
  have todo': "\<forall>x < edge_count h'. reverseEdge (edge_at h' x) = None \<longrightarrow>
        x \<in> set es \<or> source (edge_at h' x) \<in> set vs"
  proof (intro allI impI)
    fix x assume "x < edge_count h'" "reverseEdge (edge_at h' x) = None"
    with rev[of x] have x: "x \<noteq> e" "x \<noteq> ?r" "reverseEdge (edge_at h x) = None"
      by (auto split: if_splits)
    with \<open>x < edge_count h'\<close> ec have "x < ?r" by simp
    with todo x src[of x] show "x \<in> set es \<or> source (edge_at h' x) \<in> set vs" by auto
  qed
  have bound': "\<forall>x \<in> set es. x < edge_count h'" using bound ec by auto
  have inv: "ar_inv vs es h'"
    unfolding ar_inv_def using ok' po' rv' todo' bound' by blast
  have ext: "extends h h'"
    unfolding extends_def
  proof (intro conjI allI impI)
    show "edge_count h \<le> edge_count h'" using ec by simp
  next
    fix x assume "edge_count h \<le> x \<and> x < edge_count h'"
    with ec have "x = ?r" by simp
    with at_r show "isReverseEdge (edge_at h' x)" "capacity (edge_at h' x) = 0" "flow (edge_at h' x) = 0"
      by simp_all
  qed (use src tgt oth rev vx edges_sup None in \<open>auto\<close>)
  have "reverseEdge (edge_at h' e) \<noteq> None" using rev[of e] by simp
  with res inv ext show ?thesis by blast
qed

lemma ar_inv_same_reverse:
  assumes "extends h h'" "x < edge_count h" "reverseEdge (edge_at h x) \<noteq> None"
  shows "reverseEdge (edge_at h' x) \<noteq> None"
  using extends_old(6)[OF assms] assms(3) by simp

lemma addReverseEdges_edges_inv:
  assumes "ar_inv vs es h"
  shows "\<exists>h'. addReverseEdges_edges es h = Inr h' \<and> ar_inv vs [] h' \<and> extends h h'"
  using assms
proof (induction es arbitrary: h)
  case Nil
  then show ?case by simp
next
  case (Cons e es)
  from addReverseEdge_step[OF Cons.prems] obtain h1 where
    s: "addReverseEdge e h = Inr h1" "ar_inv vs es h1" "extends h h1" by blast
  from Cons.IH[OF s(2)] obtain h' where
    r: "addReverseEdges_edges es h1 = Inr h'" "ar_inv vs [] h'" "extends h1 h'" by blast
  from s r show ?case by (auto intro: extends_trans)
qed

lemma ar_inv_next_vertex:
  assumes "ar_inv (v # vs) [] h"
  shows "ar_inv vs (edges (vertex_at h v)) h"
proof -
  from assms have ok: "heap_ok h" by (simp add: ar_inv_def)
  have "x \<in> set (edges (vertex_at h v)) \<or> source (edge_at h x) \<in> set vs"
    if "x < edge_count h" "reverseEdge (edge_at h x) = None" for x
  proof -
    from assms that have "source (edge_at h x) = v \<or> source (edge_at h x) \<in> set vs"
      by (auto simp: ar_inv_def)
    with heap_okD(4)[OF ok that(1)] show ?thesis by auto
  qed
  moreover have "\<forall>x \<in> set (edges (vertex_at h v)). x < edge_count h"
    using heap_okD(1)[OF ok] by blast
  ultimately show ?thesis using assms unfolding ar_inv_def by blast
qed

lemma addReverseEdges_vertices_inv:
  assumes "ar_inv vs [] h"
  shows "\<exists>h'. addReverseEdges_vertices vs h = Inr h' \<and> ar_inv [] [] h' \<and> extends h h'"
  using assms
proof (induction vs arbitrary: h)
  case Nil
  then show ?case by simp
next
  case (Cons v vs)
  from addReverseEdges_edges_inv[OF ar_inv_next_vertex[OF Cons.prems]] obtain h1 where
    s: "addReverseEdges_edges (edges (vertex_at h v)) h = Inr h1" "ar_inv vs [] h1" "extends h h1"
    by blast
  from Cons.IH[OF s(2)] obtain h' where
    r: "addReverseEdges_vertices vs h1 = Inr h'" "ar_inv [] [] h'" "extends h1 h'" by blast
  from s r show ?case by (auto intro: extends_trans)
qed

lemma ar_inv_final: "ar_inv [] [] h \<Longrightarrow> residual_ok h"
  by (auto simp: ar_inv_def residual_ok_def)

lemma read_inv_ar_inv:
  assumes "read_inv (known, h)"
  shows "ar_inv known [] h"
  using assms unfolding read_inv_def ar_inv_def pairs_ok_def by simp

lemma addReverseEdges_readGraph:
  assumes "readGraph inp = Inr (graph, h)"
  shows "\<exists>h'. addReverseEdges graph h = Inr h' \<and> residual_ok h' \<and> extends h h'"
proof -
  obtain s t es where inp: "inp = (s, t, es)" by (cases inp) auto
  from readGraph_props(8)[OF assms[unfolded inp]] have "ar_inv (vertices graph) [] h"
    by (rule read_inv_ar_inv)
  from addReverseEdges_vertices_inv[OF this] show ?thesis
    by (auto simp: addReverseEdges_def intro: ar_inv_final)
qed

text \<open>A second run finds nothing to do.\<close>

lemma addReverseEdges_edges_idle:
  assumes "\<forall>e \<in> set es. reverseEdge (edge_at h e) \<noteq> None"
  shows "addReverseEdges_edges es h = Inr h"
  using assms by (induction es) (auto simp: addReverseEdge_def)

lemma addReverseEdges_vertices_idle:
  assumes "residual_ok h"
  shows "addReverseEdges_vertices vs h = Inr h"
proof (induction vs)
  case Nil
  show ?case by simp
next
  case (Cons v vs)
  have "\<forall>e \<in> set (edges (vertex_at h v)). reverseEdge (edge_at h e) \<noteq> None"
    using assms heap_okD(1)[of h] by (auto simp: residual_ok_def)
  then show ?case using Cons.IH by (simp add: addReverseEdges_edges_idle)
qed

subsection \<open>Flow update\<close>

lemma set_flow_simps [simp]:
  "vertex_at (set_flow e x h) = vertex_at h"
  "edge_count (set_flow e x h) = edge_count h"
  "edge_at (set_flow e x h) y = (if y = e then (edge_at h e)\<lparr>flow := x\<rparr> else edge_at h y)"
  by (simp_all add: set_flow_def)

lemma set_capacity_simps [simp]:
  "vertex_at (set_capacity e x h) = vertex_at h"
  "edge_count (set_capacity e x h) = edge_count h"
  "edge_at (set_capacity e x h) y = (if y = e then (edge_at h e)\<lparr>capacity := x\<rparr> else edge_at h y)"
  by (simp_all add: set_capacity_def)

lemma int32_id: "in32 x \<Longrightarrow> int32 x = x"
  by (simp add: int32_def in32_def signed_take_bit_int_eq_self_iff)

lemma changeFlow_loop_Cons:
  assumes "reverseEdge (edge_at h e) = Some r" "r \<noteq> e" "m \<le> capacity (edge_at h e)"
    "in32 (flow (edge_at h e) + m)" "in32 (capacity (edge_at h e) - m)"
    "in32 (flow (edge_at h r) - m)" "in32 (capacity (edge_at h r) + m)"
  shows "changeFlow_loop (e # rest) m h = changeFlow_loop rest m (push e r m h)"
proof -
  have "set_capacity r (capacity (edge_at h r) + m)
          (set_flow r (flow (edge_at h r) - m)
             (set_capacity e (capacity (edge_at h e) - m)
                (set_flow e (flow (edge_at h e) + m) h))) = push e r m h"
    using assms(2) by (simp add: set_capacity_def set_flow_def push_def fun_upd_twist)
  then show ?thesis
    using assms by (simp add: Let_def int32_id)
qed

lemma same_struct_refl [simp]: "same_struct h h"
  by (simp add: same_struct_def)

lemma same_struct_trans: "same_struct h h' \<Longrightarrow> same_struct h' h'' \<Longrightarrow> same_struct h h''"
  by (simp add: same_struct_def)

lemma same_graph_struct: "same_graph h h' \<Longrightarrow> same_struct h h'"
  by (simp add: same_graph_def same_struct_def)

lemma same_struct_push [simp]: "same_struct h (push e r m h)"
  by (simp add: same_struct_def push_def)

lemma same_structD:
  assumes "same_struct h h'"
  shows "edge_count h' = edge_count h" "source (edge_at h' e) = source (edge_at h e)"
    "target (edge_at h' e) = target (edge_at h e)"
    "isReverseEdge (edge_at h' e) = isReverseEdge (edge_at h e)"
    "reverseEdge (edge_at h' e) = reverseEdge (edge_at h e)"
    "name (vertex_at h' v) = name (vertex_at h v)"
    "edges (vertex_at h' v) = edges (vertex_at h v)"
  using assms by (simp_all add: same_struct_def)

lemma heap_ok_struct: "same_struct h h' \<Longrightarrow> heap_ok h' = heap_ok h"
  by (simp add: same_struct_def heap_ok_def)

lemma pairs_ok_struct: "same_struct h h' \<Longrightarrow> pairs_ok h' = pairs_ok h"
  by (simp add: same_struct_def pairs_ok_def)

lemma residual_ok_struct: "same_struct h h' \<Longrightarrow> residual_ok h' = residual_ok h"
  by (simp add: residual_ok_def heap_ok_struct pairs_ok_struct) (simp add: same_struct_def)

lemma is_walk_struct: "same_struct h h' \<Longrightarrow> is_walk h' u q w = is_walk h u q w"
  by (induction q arbitrary: u) (auto simp: same_struct_def)

lemma push_fields [simp]:
  "vertex_at (push e r m h) = vertex_at h"
  "edge_count (push e r m h) = edge_count h"
  "source (edge_at (push e r m h) x) = source (edge_at h x)"
  "target (edge_at (push e r m h) x) = target (edge_at h x)"
  "isReverseEdge (edge_at (push e r m h) x) = isReverseEdge (edge_at h x)"
  "reverseEdge (edge_at (push e r m h) x) = reverseEdge (edge_at h x)"
  by (simp_all add: push_def)

lemma push_values:
  "r \<noteq> e \<Longrightarrow> capacity (edge_at (push e r m h) x) =
     (if x = e then capacity (edge_at h x) - m else if x = r then capacity (edge_at h x) + m
      else capacity (edge_at h x))"
  "r \<noteq> e \<Longrightarrow> flow (edge_at (push e r m h) x) =
     (if x = e then flow (edge_at h x) + m else if x = r then flow (edge_at h x) - m
      else flow (edge_at h x))"
  by (simp_all add: push_def)

lemma pair_invD:
  assumes "pair_inv h0 h" "\<not> isReverseEdge (edge_at h0 e)" "reverseEdge (edge_at h0 e) = Some r"
  shows "0 \<le> capacity (edge_at h r)"
    "capacity (edge_at h e) + capacity (edge_at h r) = capacity (edge_at h0 e)"
    "flow (edge_at h e) = capacity (edge_at h r)"
    "flow (edge_at h r) = - capacity (edge_at h r)"
    "0 \<le> capacity (edge_at h e) \<or> capacity (edge_at h r) = 0"
  using assms unfolding pair_inv_def by blast+

text \<open>One round of the loop of \<^verbatim>\<open>changeFlow\<close>: no assertion fails, nothing wraps, and the
  pairs keep their invariant.\<close>

lemma changeFlow_step:
  assumes res: "residual_ok h0" and st: "same_struct h0 h" and pi: "pair_inv h0 h"
    and c32: "caps_in32 h0" and e: "e < edge_count h0"
    and m: "0 \<le> m" "m \<le> capacity (edge_at h e)"
  shows "\<exists>r. reverseEdge (edge_at h0 e) = Some r \<and> r \<noteq> e \<and>
           changeFlow_loop (e # rest) m h = changeFlow_loop rest m (push e r m h) \<and>
           pair_inv h0 (push e r m h)"
proof -
  from res have po: "pairs_ok h0" by (simp add: residual_ok_def)
  from res e obtain r where r: "reverseEdge (edge_at h0 e) = Some r"
    by (auto simp: residual_ok_def)
  note p = pairs_okD[OF po r]
  from p(6) have ne: "r \<noteq> e" by auto
  have rh: "reverseEdge (edge_at h e) = Some r" using st r by (simp add: same_struct_def)
  have vals: "in32 (flow (edge_at h e) + m) \<and> in32 (capacity (edge_at h e) - m) \<and>
      in32 (flow (edge_at h r) - m) \<and> in32 (capacity (edge_at h r) + m)"
  proof (cases "isReverseEdge (edge_at h0 e)")
    case False
    from c32 False e have b: "in32 (capacity (edge_at h0 e))" by (simp add: caps_in32_def)
    from pair_invD[OF pi False r] m b show ?thesis unfolding in32_def by auto
  next
    case True
    with p(6) have nr: "\<not> isReverseEdge (edge_at h0 r)" by simp
    from c32 nr p(2) have b: "in32 (capacity (edge_at h0 r))" by (simp add: caps_in32_def)
    from pair_invD[OF pi nr p(3)] m b show ?thesis unfolding in32_def by auto
  qed
  have step: "changeFlow_loop (e # rest) m h = changeFlow_loop rest m (push e r m h)"
    using rh ne m(2) vals by (intro changeFlow_loop_Cons) auto
  have "pair_inv h0 (push e r m h)"
    unfolding pair_inv_def
  proof (intro allI impI)
    fix x y assume xy: "\<not> isReverseEdge (edge_at h0 x) \<and> reverseEdge (edge_at h0 x) = Some y"
    note q = pairs_okD[OF po xy[THEN conjunct2]]
    note i = pair_invD[OF pi xy[THEN conjunct1] xy[THEN conjunct2]]
    have yx: "y \<noteq> x" using q(6) by auto
    consider "x = e" "y = r" | "x = r" "y = e" | "x \<noteq> e" "x \<noteq> r" "y \<noteq> e" "y \<noteq> r"
      using r p(3) q(3) xy by (metis option.inject)
    then show "0 \<le> capacity (edge_at (push e r m h) y) \<and>
        capacity (edge_at (push e r m h) x) + capacity (edge_at (push e r m h) y) =
          capacity (edge_at h0 x) \<and>
        flow (edge_at (push e r m h) x) = capacity (edge_at (push e r m h) y) \<and>
        flow (edge_at (push e r m h) y) = - capacity (edge_at (push e r m h) y) \<and>
        (0 \<le> capacity (edge_at (push e r m h) x) \<or> capacity (edge_at (push e r m h) y) = 0)"
    proof cases
      case 1
      with i m ne show ?thesis by (simp add: push_values)
    next
      case 2
      with i m ne yx show ?thesis by (auto simp add: push_values)
    next
      case 3
      with i ne show ?thesis by (simp add: push_values)
    qed
  qed
  with r ne step show ?thesis by blast
qed

lemma pushes_struct [simp]: "same_struct h (pushes q m h)"
proof (induction q arbitrary: h)
  case (Cons e q)
  show ?case
  proof (cases "reverseEdge (edge_at h e)")
    case (Some r)
    with same_struct_trans[OF same_struct_push Cons.IH, of h e r m] show ?thesis by simp
  qed simp
qed simp

lemma pushes_vertex [simp]: "vertex_at (pushes q m h) = vertex_at h"
  by (induction q arbitrary: h) (auto split: option.splits)

lemma changeFlow_loop_path:
  assumes "residual_ok h0" "same_struct h0 h" "pair_inv h0 h" "caps_in32 h0" "pushable h0 q"
    "0 \<le> m" "\<forall>e \<in> set q. m \<le> capacity (edge_at h e)"
  shows "changeFlow_loop q m h = Inr (pushes q m h) \<and> pair_inv h0 (pushes q m h)"
  using assms(2,3,5,7)
proof (induction q arbitrary: h)
  case Nil
  then show ?case by simp
next
  case (Cons e q)
  from Cons.prems(3) have e: "e < edge_count h0" by (simp add: pushable_def)
  from Cons.prems(4) have me: "m \<le> capacity (edge_at h e)" by simp
  from changeFlow_step[OF assms(1) Cons.prems(1,2) assms(4) e assms(6) me, of q]
  obtain r where r: "reverseEdge (edge_at h0 e) = Some r" "r \<noteq> e"
    and step: "changeFlow_loop (e # q) m h = changeFlow_loop q m (push e r m h)"
    and pi: "pair_inv h0 (push e r m h)" by blast
  have rh: "reverseEdge (edge_at h e) = Some r"
    using Cons.prems(1) r(1) by (simp add: same_struct_def)
  have st: "same_struct h0 (push e r m h)"
    using Cons.prems(1) same_struct_push by (rule same_struct_trans)
  have pq: "pushable h0 q" using Cons.prems(3) by (simp add: pushable_def)
  have notin: "e \<notin> set q" "r \<notin> set q"
    using Cons.prems(3) r(1) by (auto simp: pushable_def)
  have caps: "\<forall>x \<in> set q. m \<le> capacity (edge_at (push e r m h) x)"
  proof
    fix x assume x: "x \<in> set q"
    with notin have "x \<noteq> e" "x \<noteq> r" by auto
    with r(2) Cons.prems(4) x show "m \<le> capacity (edge_at (push e r m h) x)"
      by (simp add: push_values)
  qed
  from Cons.IH[OF st pi pq caps] step rh show ?case by simp
qed

subsection \<open>Sums of flows and capacities\<close>

lemma sum_change_one:
  fixes f g :: "nat \<Rightarrow> int"
  assumes "a < n" "\<And>x. x < n \<Longrightarrow> x \<noteq> a \<Longrightarrow> g x = f x"
  shows "(\<Sum>x<n. g x) = (\<Sum>x<n. f x) + (g a - f a)"
proof -
  have "(\<Sum>x<n. g x) = g a + (\<Sum>x \<in> {..<n} - {a}. g x)"
    using assms(1) by (simp add: sum.remove)
  moreover have "(\<Sum>x<n. f x) = f a + (\<Sum>x \<in> {..<n} - {a}. f x)"
    using assms(1) by (simp add: sum.remove)
  moreover have "(\<Sum>x \<in> {..<n} - {a}. g x) = (\<Sum>x \<in> {..<n} - {a}. f x)"
    using assms(2) by (intro sum.cong) auto
  ultimately show ?thesis by simp
qed

lemma sum_change_two:
  fixes f g :: "nat \<Rightarrow> int"
  assumes "a < n" "b < n" "a \<noteq> b" "\<And>x. x < n \<Longrightarrow> x \<noteq> a \<Longrightarrow> x \<noteq> b \<Longrightarrow> g x = f x"
  shows "(\<Sum>x<n. g x) = (\<Sum>x<n. f x) + (g a - f a) + (g b - f b)"
proof -
  let ?k = "\<lambda>x. if x = a then g a else f x"
  have "(\<Sum>x<n. ?k x) = (\<Sum>x<n. f x) + (?k a - f a)"
    using assms(1) by (intro sum_change_one) auto
  moreover have "(\<Sum>x<n. g x) = (\<Sum>x<n. ?k x) + (g b - ?k b)"
    using assms(2,4) by (intro sum_change_one) auto
  ultimately show ?thesis using assms(3) by simp
qed

lemma sum_change_none:
  fixes f g :: "nat \<Rightarrow> int"
  assumes "\<And>x. x < n \<Longrightarrow> g x = f x"
  shows "(\<Sum>x<n. g x) = (\<Sum>x<n. f x)"
  using assms by (intro sum.cong) auto

lemma push_net:
  assumes ro: "residual_of n h0" and st: "same_struct h0 h"
    and r: "reverseEdge (edge_at h0 e) = Some r"
  shows "outflow n (push e r m h) v - inflow n (push e r m h) v =
         outflow n h v - inflow n h v + m * incidence h e v"
proof -
  from ro have po: "pairs_ok h0" by (simp add: residual_of_def residual_ok_def)
  note p = pairs_okD[OF po r]
  from p(6) have ne: "r \<noteq> e" by auto
  have orig: "x < n \<longleftrightarrow> \<not> isReverseEdge (edge_at h0 x)" if "x < edge_count h0" for x
    using ro that by (auto simp: residual_of_def)
  have sr: "source (edge_at h r) = target (edge_at h e)" "target (edge_at h r) = source (edge_at h e)"
    using p(4,5) st by (simp_all add: same_struct_def)
  show ?thesis
  proof (cases "e < n")
    case True
    with orig[OF p(1)] orig[OF p(2)] p(6) have rn: "\<not> r < n" by simp
    have o: "outflow n (push e r m h) v =
        outflow n h v + (if source (edge_at h e) = v then m else 0)"
      unfolding outflow_def using True rn ne
      by (subst sum_change_one[where a = e and f = "\<lambda>x. if source (edge_at h x) = v then flow (edge_at h x) else 0"])
        (auto simp: push_values)
    have i: "inflow n (push e r m h) v =
        inflow n h v + (if target (edge_at h e) = v then m else 0)"
      unfolding inflow_def using True rn ne
      by (subst sum_change_one[where a = e and f = "\<lambda>x. if target (edge_at h x) = v then flow (edge_at h x) else 0"])
        (auto simp: push_values)
    show ?thesis unfolding o i incidence_def by (simp add: algebra_simps)
  next
    case False
    with orig[OF p(1)] orig[OF p(2)] p(6) have rn: "r < n" by simp
    have o: "outflow n (push e r m h) v =
        outflow n h v - (if target (edge_at h e) = v then m else 0)"
      unfolding outflow_def using False rn ne sr
      by (subst sum_change_one[where a = r and f = "\<lambda>x. if source (edge_at h x) = v then flow (edge_at h x) else 0"])
        (auto simp: push_values)
    have i: "inflow n (push e r m h) v =
        inflow n h v - (if source (edge_at h e) = v then m else 0)"
      unfolding inflow_def using False rn ne sr
      by (subst sum_change_one[where a = r and f = "\<lambda>x. if target (edge_at h x) = v then flow (edge_at h x) else 0"])
        (auto simp: push_values)
    show ?thesis unfolding o i incidence_def by (simp add: algebra_simps)
  qed
qed

lemma push_cap_out:
  assumes ro: "residual_of n h0" and st: "same_struct h0 h"
    and r: "reverseEdge (edge_at h0 e) = Some r"
  shows "cap_out (push e r m h) v = cap_out h v - m * incidence h e v"
proof -
  from ro have po: "pairs_ok h0" by (simp add: residual_of_def residual_ok_def)
  note p = pairs_okD[OF po r]
  from p(6) have ne: "r \<noteq> e" by auto
  have ec: "edge_count h = edge_count h0" using st by (simp add: same_struct_def)
  have sr: "source (edge_at h r) = target (edge_at h e)"
    using p(4) st by (simp add: same_struct_def)
  have "cap_out (push e r m h) v =
      cap_out h v + (if source (edge_at h e) = v then - m else 0)
        + (if target (edge_at h e) = v then m else 0)"
    unfolding cap_out_def using p(1,2) ne sr ec
    by (subst sum_change_two[where a = e and b = r
          and f = "\<lambda>x. if source (edge_at h x) = v then capacity (edge_at h x) else 0"])
      (auto simp: push_values)
  then show ?thesis unfolding incidence_def by (simp add: algebra_simps)
qed

lemma incidence_struct: "same_struct h h' \<Longrightarrow> incidence h' e v = incidence h e v"
  by (simp add: incidence_def same_struct_def)

lemma pushes_sums:
  assumes ro: "residual_of n h0" and st: "same_struct h0 h"
    and q: "\<forall>e \<in> set q. e < edge_count h0"
  shows "outflow n (pushes q m h) v - inflow n (pushes q m h) v =
           outflow n h v - inflow n h v + m * (\<Sum>e\<leftarrow>q. incidence h0 e v) \<and>
         cap_out (pushes q m h) v = cap_out h v - m * (\<Sum>e\<leftarrow>q. incidence h0 e v)"
  using st q
proof (induction q arbitrary: h)
  case Nil
  then show ?case by simp
next
  case (Cons e q)
  from ro Cons.prems(2) obtain r where r: "reverseEdge (edge_at h0 e) = Some r"
    by (auto simp: residual_of_def residual_ok_def)
  have rh: "reverseEdge (edge_at h e) = Some r"
    using Cons.prems(1) r by (simp add: same_struct_def)
  have st': "same_struct h0 (push e r m h)"
    using Cons.prems(1) same_struct_push by (rule same_struct_trans)
  have inc: "incidence h e v = incidence h0 e v"
    using Cons.prems(1) by (rule incidence_struct)
  from Cons.IH[OF st'] Cons.prems(2)
    push_net[OF ro Cons.prems(1) r, of m v] push_cap_out[OF ro Cons.prems(1) r, of m v]
  show ?case using rh inc by (simp add: algebra_simps)
qed

lemma walk_incidence:
  "is_walk h u q w \<Longrightarrow>
   (\<Sum>e\<leftarrow>q. incidence h e v) = (if v = u then 1 else 0) - (if v = w then 1 else 0)"
  by (induction q arbitrary: u) (auto simp: incidence_def)

subsection \<open>The search from the source\<close>

lemma heap_ok_adj_ok: "heap_ok h \<Longrightarrow> adj_ok h"
  by (simp add: heap_ok_def adj_ok_def)

lemma found_path_augmenting:
  assumes "inPath (vertex_at hm s)" "found_path hm s t es q" "same_graph h hm"
  shows "augmenting_path h s t q"
proof -
  have ea: "edge_at hm = edge_at h" using assms(3) by (simp add: same_graph_def)
  from assms(2) have "\<forall>e \<in> set q. tgt_of hm e \<noteq> s"
    using assms(1) by (auto simp: found_path_def)
  then have "s \<notin> set (map (tgt_of hm) q)" by auto
  with assms(2) show ?thesis
    unfolding augmenting_path_def found_path_def is_walk_same_graph[OF assms(3)] ea by simp
qed

lemma augmenting_found_path:
  assumes "augmenting_path h s t q" "\<forall>v. v \<noteq> s \<longrightarrow> \<not> inPath (vertex_at h v)"
  shows "found_path (set_inPath s True h) s t (rev (edges (vertex_at h s))) q"
proof -
  let ?hm = "set_inPath s True h"
  have sg: "same_graph h ?hm" by simp
  from assms(1) obtain e q' where q: "q = e # q'"
    by (cases q) (auto simp: augmenting_path_def)
  with assms(1) have hd: "hd q \<in> set (rev (edges (vertex_at h s)))"
    by (simp add: augmenting_path_def)
  have marks: "\<forall>e \<in> set q. \<not> inPath (vertex_at ?hm (tgt_of ?hm e))"
    using assms by (auto simp: augmenting_path_def)
  from assms(1) hd marks show ?thesis
    unfolding found_path_def is_walk_same_graph[OF sg]
    by (simp add: augmenting_path_def)
qed

text \<open>What \<^verbatim>\<open>findPath(source, target, path)\<close> does on a heap whose markers are clear
  (the marker of the source itself may be set: the search sets it first).\<close>

lemma findPath_spec:
  assumes "adj_ok h" "\<forall>v. v \<noteq> s \<longrightarrow> \<not> inPath (vertex_at h v)"
  shows "\<exists>h' p f. findPath h s t = Some (h', p, f) \<and> same_graph h h' \<and>
           (\<forall>v. v \<noteq> s \<longrightarrow> \<not> inPath (vertex_at h' v)) \<and>
           (inPath (vertex_at h' s) \<longleftrightarrow> f \<and> length p = 1) \<and>
           (f \<longrightarrow> augmenting_path h s t p) \<and>
           (\<not> f \<longrightarrow> p = [] \<and> (\<forall>q. \<not> augmenting_path h s t q))"
proof -
  let ?hm = "set_inPath s True h"
  let ?es = "rev (edges (vertex_at h s))"
  from findPath_loop_total[of ?hm s t ?es "[]"] obtain h' p f where
    run: "findPath_loop ?hm s t ?es [] = Some (h', p, f)" and fr: "search_frame ?hm s h'"
    by blast
  have fp: "findPath h s t = Some (h', p, f)" using run by (simp add: findPath_def Let_def)
  have sg: "same_graph h h'" using fr by (simp add: search_frame_def same_graph_def)
  have marks: "\<forall>v. v \<noteq> s \<longrightarrow> \<not> inPath (vertex_at h' v)"
    using fr assms(2) by (simp add: search_frame_def)
  have adj: "adj_ok ?hm"
    using assms(1) adj_ok_same_graph[OF same_graph_set_inPath, of s True h] by simp
  have sub: "set ?es \<subseteq> set (edges (vertex_at ?hm s))" by simp
  have hm: "inPath (vertex_at ?hm s)" by simp
  note snd0 = findPath_loop_sound[OF run adj sub]
  have nf: "\<not> f \<Longrightarrow> p = [] \<and> \<not> inPath (vertex_at h' s)"
    using snd0 by blast
  have yf: "f \<Longrightarrow> found_path ?hm s t ?es p \<and> (inPath (vertex_at h' s) \<longleftrightarrow> length p = 1)"
  proof -
    assume f
    with snd0 obtain q where q: "p = [] @ q" "found_path ?hm s t ?es q"
      "inPath (vertex_at h' s) \<longleftrightarrow> length q = 1 \<and> inPath (vertex_at ?hm s)" by blast
    from q(1) have "p = q" by simp
    with q(2,3) hm show ?thesis by simp
  qed
  have c1: "inPath (vertex_at h' s) \<longleftrightarrow> f \<and> length p = 1" using nf yf by blast
  have c2: "f \<longrightarrow> augmenting_path h s t p"
  proof
    assume f
    with yf have "found_path ?hm s t ?es p" by simp
    from found_path_augmenting[OF hm this] show "augmenting_path h s t p" by simp
  qed
  have c3: "\<not> f \<longrightarrow> p = [] \<and> (\<forall>q. \<not> augmenting_path h s t q)"
  proof (intro impI conjI allI)
    assume nf': "\<not> f"
    with nf show "p = []" by simp
    fix q
    show "\<not> augmenting_path h s t q"
    proof
      assume "augmenting_path h s t q"
      from augmenting_found_path[OF this assms(2)]
      have "found_path ?hm s t ?es q" .
      moreover from run nf' have "findPath_loop ?hm s t ?es [] = Some (h', p, False)" by simp
      ultimately show False by (rule findPath_loop_complete[rotated])
    qed
  qed
  from fp sg marks c1 c2 c3 show ?thesis by blast
qed

subsection \<open>The claims about the search\<close>

lemmas eval_defs = main_def readGraph_def getVertex_def new_Edge_def set_edges_def set_inPath_def
  set_flow_def set_capacity_def set_reverseEdge_def emptyHeap_def edgeLess_def addReverseEdges_def
  addReverseEdge_def findMaxFlow_def findPath_def findMinCapacity_def changeFlow_def printGraph_def
  findPath_loop_Nil findPath_loop_Cons Let_def int32_def

lemma is_walk_chain:
  assumes "is_walk h u p w" "p \<noteq> []"
  shows "source (edge_at h (hd p)) = u \<and> target (edge_at h (last p)) = w \<and>
         (\<forall>i. Suc i < length p \<longrightarrow> target (edge_at h (p ! i)) = source (edge_at h (p ! Suc i)))"
  using assms
proof (induction p arbitrary: u)
  case Nil
  then show ?case by simp
next
  case (Cons e p)
  show ?case
  proof (cases p)
    case Nil
    with Cons.prems show ?thesis by simp
  next
    case (Cons e' p')
    with Cons.prems have w: "is_walk h (target (edge_at h e)) p w" "p \<noteq> []" by simp_all
    note ih = Cons.IH[OF w]
    have "target (edge_at h ((e # p) ! i)) = source (edge_at h ((e # p) ! Suc i))"
      if "Suc i < length (e # p)" for i
    proof (cases i)
      case 0
      with ih Cons show ?thesis by simp
    next
      case (Suc j)
      with that ih show ?thesis by simp
    qed
    with ih Cons.prems w(2) show ?thesis by simp
  qed
qed

text \<open>
  Claim C3. On a heap whose adjacency sets hold the edges that leave their vertex and whose
  markers are clear (but possibly that of the source), \<^verbatim>\<open>findPath(source, target, path)\<close>
  returns. When it returns found, the path is an augmenting path: a non-empty sequence of
  edges of the graph that starts at the source and ends at the target, in which each edge's
  target is the next edge's source, every edge has residual capacity greater than zero and
  no vertex occurs twice. It returns not-found exactly when the residual graph has no such
  path. The search changes no edge.
\<close>

theorem findPath_augmenting_path:
  assumes "adj_ok h" and "\<forall>v. v \<noteq> s \<longrightarrow> \<not> inPath (vertex_at h v)"
  shows "\<exists>h' p found. findPath h s t = Some (h', p, found) \<and> edge_at h' = edge_at h \<and>
           (found \<longrightarrow>
              augmenting_path h s t p \<and>
              source (edge_at h (hd p)) = s \<and> target (edge_at h (last p)) = t \<and>
              (\<forall>i. Suc i < length p \<longrightarrow>
                 target (edge_at h (p ! i)) = source (edge_at h (p ! Suc i))) \<and>
              (\<forall>e \<in> set p. 0 < capacity (edge_at h e)) \<and>
              distinct (s # map (\<lambda>e. target (edge_at h e)) p)) \<and>
           (\<not> found \<longleftrightarrow> (\<forall>q. \<not> augmenting_path h s t q))"
proof -
  from findPath_spec[OF assms, of t] obtain h' p f where
    r: "findPath h s t = Some (h', p, f)" "same_graph h h'"
      "f \<longrightarrow> augmenting_path h s t p" "\<not> f \<longrightarrow> (\<forall>q. \<not> augmenting_path h s t q)"
    by blast
  have "augmenting_path h s t p \<Longrightarrow> source (edge_at h (hd p)) = s \<and> target (edge_at h (last p)) = t \<and>
      (\<forall>i. Suc i < length p \<longrightarrow> target (edge_at h (p ! i)) = source (edge_at h (p ! Suc i))) \<and>
      (\<forall>e \<in> set p. 0 < capacity (edge_at h e)) \<and>
      distinct (s # map (\<lambda>e. target (edge_at h e)) p)"
    using is_walk_chain[of h s p t] unfolding augmenting_path_def by blast
  moreover have "edge_at h' = edge_at h" using r(2) by (simp add: same_graph_def)
  ultimately show ?thesis using r(1,3,4) by blast
qed

lemma scenario_heap:
  "\<exists>graph h h0. readGraph scenario = Inr (graph, h) \<and> addReverseEdges graph h = Inr h0 \<and>
     adj_ok h0 \<and> (\<forall>v. \<not> inPath (vertex_at h0 v)) \<and>
     (\<exists>h'. findPath h0 (CHR ''S'') (CHR ''T'') = Some (h', [0, 1], True))"
  by (simp add: scenario_def eval_defs adj_ok_def)

theorem findPath_augmenting_path_witness:
  "\<exists>graph h h0 h'. readGraph scenario = Inr (graph, h) \<and> addReverseEdges graph h = Inr h0 \<and>
     findPath h0 (CHR ''S'') (CHR ''T'') = Some (h', [0, 1], True) \<and>
     augmenting_path h0 (CHR ''S'') (CHR ''T'') [0, 1]"
proof -
  from scenario_heap obtain graph h h0 h' where
    r: "readGraph scenario = Inr (graph, h)" "addReverseEdges graph h = Inr h0"
    and a: "adj_ok h0" and m: "\<forall>v. v \<noteq> CHR ''S'' \<longrightarrow> \<not> inPath (vertex_at h0 v)"
    and f: "findPath h0 (CHR ''S'') (CHR ''T'') = Some (h', [0, 1], True)"
    by auto
  from findPath_augmenting_path[OF a m, of "CHR ''T''"] f
  have "augmenting_path h0 (CHR ''S'') (CHR ''T'') [0, 1]" by auto
  with r f show ?thesis by blast
qed

text \<open>
  Claim C10. The claim says that after every top-level call of \<^verbatim>\<open>findPath\<close> every marker is
  clear. The markers of all vertices but the source are clear, and the source's marker is
  clear unless the search returned through the early \<^verbatim>\<open>return true\<close> of the top-level call,
  on an edge that leads from the source straight to the target: that return leaves
  \<^verbatim>\<open>source->inPath\<close> set, where the two other returns clear it. On the input with the single
  edge \<open>S \<rightarrow> T\<close> the first search returns with the marker of \<open>S\<close> set.
\<close>

theorem findPath_leaves_source_marked:
  "\<exists>graph h h0 h' p. readGraph direct_edge = Inr (graph, h) \<and>
     addReverseEdges graph h = Inr h0 \<and> (\<forall>v. \<not> inPath (vertex_at h0 v)) \<and>
     findPath h0 (graph_source graph) (graph_target graph) = Some (h', p, True) \<and>
     inPath (vertex_at h' (CHR ''S''))"
  by (simp add: direct_edge_def eval_defs)

subsection \<open>Paths in the driver loop\<close>

lemma fold_min_le:
  fixes c :: "nat \<Rightarrow> int"
  shows "fold (\<lambda>e a. min a (c e)) p a \<le> a \<and> (\<forall>e \<in> set p. fold (\<lambda>e a. min a (c e)) p a \<le> c e)"
proof (induction p arbitrary: a)
  case Nil
  show ?case by simp
next
  case (Cons x p)
  from Cons.IH[of "min a (c x)"] show ?case by auto
qed

lemma fold_min_in:
  fixes c :: "nat \<Rightarrow> int"
  shows "fold (\<lambda>e a. min a (c e)) p a = a \<or> (\<exists>e \<in> set p. fold (\<lambda>e a. min a (c e)) p a = c e)"
proof (induction p arbitrary: a)
  case Nil
  show ?case by simp
next
  case (Cons x p)
  from Cons.IH[of "min a (c x)"] show ?case by (auto simp: min_def split: if_splits)
qed

lemma findMinCapacity_path:
  assumes "p \<noteq> []"
  shows "\<exists>m. findMinCapacity h p = Inr m \<and> (\<forall>e \<in> set p. m \<le> capacity (edge_at h e)) \<and>
              (\<exists>e \<in> set p. m = capacity (edge_at h e))"
proof -
  from assms obtain x q where p: "p = x # q" by (cases p) auto
  let ?c = "\<lambda>e. capacity (edge_at h e)"
  let ?m = "fold (\<lambda>e a. min a (?c e)) p (?c x)"
  have "findMinCapacity h p = Inr ?m" using p by (simp add: findMinCapacity_def)
  moreover have "\<forall>e \<in> set p. ?m \<le> ?c e" using fold_min_le[of ?c p "?c x"] by simp
  moreover have "\<exists>e \<in> set p. ?m = ?c e" using fold_min_in[of ?c p "?c x"] p by auto
  ultimately show ?thesis by blast
qed

lemma is_walk_edges:
  "is_walk h u p w \<Longrightarrow> e \<in> set p \<Longrightarrow> \<exists>v. e \<in> set (edges (vertex_at h v))"
  by (induction p arbitrary: u) auto

lemma simple_no_reverse:
  assumes "is_walk h u p w" "distinct (u # map (tgt_of h) p)" "e \<in> set p" "e' \<in> set p"
  shows "\<not> (source (edge_at h e') = tgt_of h e \<and> tgt_of h e' = source (edge_at h e))"
  using assms
proof (induction p arbitrary: u)
  case Nil
  then show ?case by simp
next
  case (Cons a p)
  from Cons.prems(1) have a: "source (edge_at h a) = u" and w: "is_walk h (tgt_of h a) p w"
    by simp_all
  from Cons.prems(2) have d: "u \<noteq> tgt_of h a" "u \<notin> tgt_of h ` set p"
    "distinct (tgt_of h a # map (tgt_of h) p)" by auto
  show ?case
  proof (cases "e = a")
    case ea: True
    show ?thesis
    proof (cases "e' = a")
      case True
      with ea a d(1) show ?thesis by auto
    next
      case False
      with Cons.prems(4) have "e' \<in> set p" by simp
      with d(2) have "tgt_of h e' \<noteq> u" by auto
      with ea a show ?thesis by simp
    qed
  next
    case False
    with Cons.prems(3) have e: "e \<in> set p" by simp
    show ?thesis
    proof (cases "e' = a")
      case True
      from e d(2) have "tgt_of h e \<noteq> u" by auto
      with True a show ?thesis by simp
    next
      case False
      with Cons.prems(4) have "e' \<in> set p" by simp
      from Cons.IH[OF w d(3) e this] show ?thesis .
    qed
  qed
qed

lemma augmenting_pushable:
  assumes "residual_ok h0" "same_struct h0 h" "augmenting_path h s t p"
  shows "pushable h0 p"
proof -
  from assms(1) have ok: "heap_ok h0" and po: "pairs_ok h0" by (simp_all add: residual_ok_def)
  from assms(3) have w: "is_walk h s p t" and d: "distinct (s # map (tgt_of h) p)"
    by (simp_all add: augmenting_path_def)
  from d have "distinct (map (tgt_of h) p)" by simp
  then have dp: "distinct p" by (simp add: distinct_map)
  have w0: "is_walk h0 s p t" using w is_walk_struct[OF assms(2)] by simp
  have bound: "\<forall>e \<in> set p. e < edge_count h0"
    using is_walk_edges[OF w0] heap_okD(1)[OF ok] by blast
  have norev: "r \<notin> set p" if "e \<in> set p" "reverseEdge (edge_at h0 e) = Some r" for e r
  proof
    assume "r \<in> set p"
    from simple_no_reverse[OF w d that(1) this] pairs_okD(4,5)[OF po that(2)] assms(2)
    show False by (simp add: same_struct_def)
  qed
  from dp bound norev show ?thesis unfolding pushable_def by blast
qed

lemma pushes_other:
  assumes "x \<notin> set q" "\<forall>e \<in> set q. reverseEdge (edge_at h e) \<noteq> Some x"
  shows "edge_at (pushes q m h) x = edge_at h x"
  using assms
proof (induction q arbitrary: h)
  case Nil
  then show ?case by simp
next
  case (Cons e q)
  show ?case
  proof (cases "reverseEdge (edge_at h e)")
    case None
    then show ?thesis by simp
  next
    case (Some r)
    with Cons.prems have ne: "x \<noteq> e" "x \<noteq> r" by auto
    have "edge_at (pushes q m (push e r m h)) x = edge_at (push e r m h) x"
      using Cons.prems by (intro Cons.IH) auto
    with Some ne show ?thesis by (simp add: push_def)
  qed
qed

lemma pushes_on_path:
  assumes "residual_ok h0" "same_struct h0 h" "pushable h0 q" "x \<in> set q"
  shows "capacity (edge_at (pushes q m h) x) = capacity (edge_at h x) - m"
  using assms(2,3,4)
proof (induction q arbitrary: h)
  case Nil
  then show ?case by simp
next
  case (Cons e q)
  from assms(1) have po: "pairs_ok h0" by (simp add: residual_ok_def)
  from Cons.prems(2) have e: "e < edge_count h0" by (simp add: pushable_def)
  with assms(1) obtain r where r: "reverseEdge (edge_at h0 e) = Some r"
    by (auto simp: residual_ok_def)
  have rh: "reverseEdge (edge_at h e) = Some r" using Cons.prems(1) r by (simp add: same_struct_def)
  from pairs_okD(6)[OF po r] have ne: "r \<noteq> e" by auto
  have st: "same_struct h0 (push e r m h)"
    using Cons.prems(1) same_struct_push by (rule same_struct_trans)
  have pq: "pushable h0 q" using Cons.prems(2) by (simp add: pushable_def)
  have notin: "e \<notin> set q" "r \<notin> set q" using Cons.prems(2) r by (auto simp: pushable_def)
  show ?case
  proof (cases "x = e")
    case True
    have "\<forall>y \<in> set q. reverseEdge (edge_at (push e r m h) y) \<noteq> Some e"
    proof
      fix y assume y: "y \<in> set q"
      show "reverseEdge (edge_at (push e r m h) y) \<noteq> Some e"
      proof
        assume "reverseEdge (edge_at (push e r m h) y) = Some e"
        then have "reverseEdge (edge_at h0 y) = Some e" using Cons.prems(1) by (simp add: same_struct_def)
        from pairs_okD(3)[OF po this] r have "y = r" by simp
        with y notin show False by simp
      qed
    qed
    from pushes_other[OF notin(1) this, of m] True rh ne show ?thesis
      by (simp add: push_values)
  next
    case False
    with Cons.prems(3) have xq: "x \<in> set q" by simp
    with notin have "x \<noteq> r" by auto
    with Cons.IH[OF st pq xq] rh False ne show ?thesis by (simp add: push_values)
  qed
qed

subsection \<open>One round of the driver loop\<close>

lemma augmenting_path_ends_differ:
  assumes "augmenting_path h s t p"
  shows "s \<noteq> t"
proof -
  from assms have p: "p \<noteq> []" and w: "is_walk h s p t" and d: "s \<notin> tgt_of h ` set p"
    by (auto simp: augmenting_path_def)
  from is_walk_chain[OF w p] have "tgt_of h (last p) = t" by simp
  moreover from p have "last p \<in> set p" by simp
  ultimately show ?thesis using d by auto
qed

lemma augmenting_path_cong:
  assumes "same_graph h h'"
  shows "augmenting_path h' s t p = augmenting_path h s t p"
  using assms is_walk_same_graph[OF assms]
  by (simp add: augmenting_path_def same_graph_def)

lemma sums_same_graph:
  assumes "same_graph h h'"
  shows "outflow n h' v = outflow n h v" "inflow n h' v = inflow n h v" "cap_out h' v = cap_out h v"
proof -
  from assms have e: "edge_at h' = edge_at h" "edge_count h' = edge_count h"
    by (simp_all add: same_graph_def)
  show "outflow n h' v = outflow n h v" "inflow n h' v = inflow n h v" "cap_out h' v = cap_out h v"
    unfolding outflow_def inflow_def cap_out_def e by (rule refl)+
qed

text \<open>One round of the loop of \<^verbatim>\<open>findMaxFlow\<close>, from a heap that satisfies the invariant.\<close>

lemma driver_step:
  assumes ro: "residual_of n h0" and c32: "caps_in32 h0" and inv: "driver_inv graph h0 h"
    and s: "s = graph_source graph" and t: "t = graph_target graph"
  shows "\<exists>h1 p f. findPath h s t = Some (h1, p, f) \<and> same_graph h h1 \<and> driver_inv graph h0 h1 \<and>
      (\<not> f \<longrightarrow> (\<forall>q. \<not> augmenting_path h s t q)) \<and>
      (f \<longrightarrow> augmenting_path h s t p \<and> s \<noteq> t \<and>
         (\<exists>m. findMinCapacity h1 p = Inr m \<and> 0 < m \<and>
              (\<forall>e \<in> set p. m \<le> capacity (edge_at h e)) \<and>
              changeFlow p m h1 = Inr (pushes p m h1) \<and>
              driver_inv graph h0 (pushes p m h1) \<and>
              (\<forall>v. outflow n (pushes p m h1) v - inflow n (pushes p m h1) v =
                   outflow n h v - inflow n h v +
                   m * ((if v = s then 1 else 0) - (if v = t then 1 else 0))) \<and>
              (\<forall>v. cap_out (pushes p m h1) v =
                   cap_out h v - m * ((if v = s then 1 else 0) - (if v = t then 1 else 0))) \<and>
              (\<forall>e \<in> set p. capacity (edge_at (pushes p m h1) e) = capacity (edge_at h e) - m)))"
proof -
  from ro have res: "residual_ok h0" by (simp add: residual_of_def)
  from inv have st: "same_struct h0 h" and pi: "pair_inv h0 h"
    and mk: "\<forall>v. v \<noteq> s \<longrightarrow> \<not> inPath (vertex_at h v)"
    by (simp_all add: driver_inv_def s)
  have "heap_ok h" using res heap_ok_struct[OF st] by (simp add: residual_ok_def)
  then have adj: "adj_ok h" by (rule heap_ok_adj_ok)
  from findPath_spec[OF adj mk, of t] obtain h1 p f where
    fp: "findPath h s t = Some (h1, p, f)" and sg: "same_graph h h1"
    and mk1: "\<forall>v. v \<noteq> s \<longrightarrow> \<not> inPath (vertex_at h1 v)"
    and yes: "f \<longrightarrow> augmenting_path h s t p"
    and no: "\<not> f \<longrightarrow> (\<forall>q. \<not> augmenting_path h s t q)"
    by blast
  have ea: "edge_at h1 = edge_at h" using sg by (simp add: same_graph_def)
  have st1: "same_struct h0 h1"
    using st same_graph_struct[OF sg] by (rule same_struct_trans)
  have pi1: "pair_inv h0 h1" using pi unfolding pair_inv_def ea .
  have inv1: "driver_inv graph h0 h1"
    using st1 pi1 mk1 by (simp add: driver_inv_def s)
  have found: "augmenting_path h s t p \<and> s \<noteq> t \<and>
         (\<exists>m. findMinCapacity h1 p = Inr m \<and> 0 < m \<and>
              (\<forall>e \<in> set p. m \<le> capacity (edge_at h e)) \<and>
              changeFlow p m h1 = Inr (pushes p m h1) \<and>
              driver_inv graph h0 (pushes p m h1) \<and>
              (\<forall>v. outflow n (pushes p m h1) v - inflow n (pushes p m h1) v =
                   outflow n h v - inflow n h v +
                   m * ((if v = s then 1 else 0) - (if v = t then 1 else 0))) \<and>
              (\<forall>v. cap_out (pushes p m h1) v =
                   cap_out h v - m * ((if v = s then 1 else 0) - (if v = t then 1 else 0))) \<and>
              (\<forall>e \<in> set p. capacity (edge_at (pushes p m h1) e) = capacity (edge_at h e) - m))"
    if f
  proof -
    from that yes have ap: "augmenting_path h s t p" by simp
    then have ap1: "augmenting_path h1 s t p" by (simp add: augmenting_path_cong[OF sg])
    from ap have ne: "p \<noteq> []" and pos: "\<forall>e \<in> set p. 0 < capacity (edge_at h e)"
      and w: "is_walk h s p t"
      by (simp_all add: augmenting_path_def)
    from findMinCapacity_path[OF ne, of h1] ea obtain m where
      fm: "findMinCapacity h1 p = Inr m" and le: "\<forall>e \<in> set p. m \<le> capacity (edge_at h e)"
      and att: "\<exists>e \<in> set p. m = capacity (edge_at h e)"
      by auto
    from att pos have m0: "0 < m" by auto
    have pu: "pushable h0 p" using res st1 ap1 by (rule augmenting_pushable)
    have le1: "\<forall>e \<in> set p. m \<le> capacity (edge_at h1 e)" using le ea by simp
    from changeFlow_loop_path[OF res st1 pi1 c32 pu _ le1] m0
    have cf: "changeFlow_loop p m h1 = Inr (pushes p m h1)" and pi2: "pair_inv h0 (pushes p m h1)"
      by simp_all
    from cf m0 have cf': "changeFlow p m h1 = Inr (pushes p m h1)" by (simp add: changeFlow_def)
    have st2: "same_struct h0 (pushes p m h1)"
      using st1 pushes_struct by (rule same_struct_trans)
    have inv2: "driver_inv graph h0 (pushes p m h1)"
      using st2 pi2 mk1 by (simp add: driver_inv_def s)
    have w0: "is_walk h0 s p t" using w is_walk_struct[OF st] by simp
    have bound: "\<forall>e \<in> set p. e < edge_count h0" using pu by (simp add: pushable_def)
    note sums = pushes_sums[OF ro st1 bound, of m]
    note inc = walk_incidence[OF w0]
    have net: "outflow n (pushes p m h1) v - inflow n (pushes p m h1) v =
                   outflow n h v - inflow n h v +
                   m * ((if v = s then 1 else 0) - (if v = t then 1 else 0))" for v
      using sums[of v] inc[of v] sums_same_graph[OF sg] by simp
    have cap: "cap_out (pushes p m h1) v =
                   cap_out h v - m * ((if v = s then 1 else 0) - (if v = t then 1 else 0))" for v
      using sums[of v] inc[of v] sums_same_graph[OF sg] by simp
    have onp: "\<forall>e \<in> set p. capacity (edge_at (pushes p m h1) e) = capacity (edge_at h e) - m"
      using pushes_on_path[OF res st1 pu] ea by simp
    from ap augmenting_path_ends_differ[OF ap] fm m0 le cf' inv2 net cap onp
    show ?thesis by blast
  qed
  from fp sg inv1 no found show ?thesis by blast
qed

text \<open>A round of the loop in which the search has found the path \<open>p\<close>.\<close>

lemma driver_round:
  assumes ro: "residual_of n h0" and c32: "caps_in32 h0" and inv: "driver_inv graph h0 h"
    and s: "s = graph_source graph" and t: "t = graph_target graph"
    and fp: "findPath h s t = Some (h1, p, True)"
  shows "\<exists>m. edge_at h1 = edge_at h \<and> augmenting_path h s t p \<and> s \<noteq> t \<and>
           findMinCapacity h1 p = Inr m \<and> 0 < m \<and>
           (\<forall>e \<in> set p. m \<le> capacity (edge_at h e)) \<and>
           changeFlow p m h1 = Inr (pushes p m h1) \<and>
           driver_inv graph h0 (pushes p m h1) \<and>
           (\<forall>v. outflow n (pushes p m h1) v - inflow n (pushes p m h1) v =
                outflow n h v - inflow n h v +
                m * ((if v = s then 1 else 0) - (if v = t then 1 else 0))) \<and>
           (\<forall>v. cap_out (pushes p m h1) v =
                cap_out h v - m * ((if v = s then 1 else 0) - (if v = t then 1 else 0))) \<and>
           (\<forall>e \<in> set p. capacity (edge_at (pushes p m h1) e) = capacity (edge_at h e) - m)"
proof -
  from driver_step[OF ro c32 inv s t] obtain h1' p' f' where
    fp': "findPath h s t = Some (h1', p', f')" and sg: "same_graph h h1'"
    and yes: "f' \<longrightarrow> augmenting_path h s t p' \<and> s \<noteq> t \<and>
         (\<exists>m. findMinCapacity h1' p' = Inr m \<and> 0 < m \<and>
              (\<forall>e \<in> set p'. m \<le> capacity (edge_at h e)) \<and>
              changeFlow p' m h1' = Inr (pushes p' m h1') \<and>
              driver_inv graph h0 (pushes p' m h1') \<and>
              (\<forall>v. outflow n (pushes p' m h1') v - inflow n (pushes p' m h1') v =
                   outflow n h v - inflow n h v +
                   m * ((if v = s then 1 else 0) - (if v = t then 1 else 0))) \<and>
              (\<forall>v. cap_out (pushes p' m h1') v =
                   cap_out h v - m * ((if v = s then 1 else 0) - (if v = t then 1 else 0))) \<and>
              (\<forall>e \<in> set p'. capacity (edge_at (pushes p' m h1') e) = capacity (edge_at h e) - m))"
    by blast
  from fp fp' have eq: "h1' = h1" "p' = p" "f'" by simp_all
  have ea: "edge_at h1 = edge_at h" using sg eq by (simp add: same_graph_def)
  from yes eq(3) ea show ?thesis unfolding eq(1,2) by blast
qed

subsection \<open>The invariant of the driver loop\<close>

lemma driver_init:
  assumes rg: "readGraph (s, t, es) = Inr (graph, h)"
    and caps: "\<forall>x \<in> set es. in32 (snd (snd x))"
  shows "\<exists>h0. addReverseEdges graph h = Inr h0 \<and> extends h h0 \<and>
           residual_of (length es) h0 \<and> caps_in32 h0 \<and> driver_inv graph h0 h0 \<and>
           length es \<le> edge_count h0 \<and>
           (\<forall>v. \<not> inPath (vertex_at h0 v)) \<and>
           (\<forall>e < length es. source (edge_at h0 e) = fst (es ! e) \<and>
               target (edge_at h0 e) = fst (snd (es ! e)) \<and>
               capacity (edge_at h0 e) = snd (snd (es ! e)) \<and> flow (edge_at h0 e) = 0)"
proof -
  note rp = readGraph_props[OF rg]
  from addReverseEdges_readGraph[OF rg] obtain h0 where
    ar: "addReverseEdges graph h = Inr h0" and res: "residual_ok h0" and ext: "extends h h0"
    by blast
  let ?n = "length es"
  from res have po: "pairs_ok h0" by (simp add: residual_ok_def)
  have old: "source (edge_at h0 e) = fst (es ! e) \<and> target (edge_at h0 e) = fst (snd (es ! e)) \<and>
      capacity (edge_at h0 e) = snd (snd (es ! e)) \<and> flow (edge_at h0 e) = 0 \<and>
      \<not> isReverseEdge (edge_at h0 e)" if "e < ?n" for e
    using extends_old[OF ext, of e] that rp(6) rp(7)[OF that] by (simp add: input_Edge_def)
  have new: "isReverseEdge (edge_at h0 x) \<and> capacity (edge_at h0 x) = 0 \<and> flow (edge_at h0 x) = 0"
    if "?n \<le> x" "x < edge_count h0" for x
    using extends_new[OF ext, of x] that rp(6) by simp
  have flag: "isReverseEdge (edge_at h0 x) \<longleftrightarrow> ?n \<le> x" if "x < edge_count h0" for x
    using old[of x] new[of x] that by (cases "x < ?n") auto
  have ro: "residual_of ?n h0" using res flag by (simp add: residual_of_def)
  have c32: "caps_in32 h0"
    unfolding caps_in32_def
  proof (intro allI impI)
    fix e assume "e < edge_count h0" "\<not> isReverseEdge (edge_at h0 e)"
    with flag have e: "e < ?n" by auto
    then have "es ! e \<in> set es" by simp
    with caps old[OF e] show "in32 (capacity (edge_at h0 e))" by simp
  qed
  have pi: "pair_inv h0 h0"
    unfolding pair_inv_def
  proof (intro allI impI)
    fix e r assume a: "\<not> isReverseEdge (edge_at h0 e) \<and> reverseEdge (edge_at h0 e) = Some r"
    note p = pairs_okD[OF po a[THEN conjunct2]]
    from a flag[OF p(1)] have e: "e < ?n" by auto
    from p(6) a flag[OF p(2)] have r: "?n \<le> r" by simp
    from old[OF e] new[OF r p(2)]
    show "0 \<le> capacity (edge_at h0 r) \<and>
        capacity (edge_at h0 e) + capacity (edge_at h0 r) = capacity (edge_at h0 e) \<and>
        flow (edge_at h0 e) = capacity (edge_at h0 r) \<and>
        flow (edge_at h0 r) = - capacity (edge_at h0 r) \<and>
        (0 \<le> capacity (edge_at h0 e) \<or> capacity (edge_at h0 r) = 0)" by simp
  qed
  have mk: "\<forall>v. \<not> inPath (vertex_at h0 v)"
    using extends_vertex(2)[OF ext] rp(8) by (simp add: read_inv_def)
  have inv: "driver_inv graph h0 h0" using pi mk by (simp add: driver_inv_def)
  have le: "length es \<le> edge_count h0" using extends_vertex(1)[OF ext] rp(6) by simp
  from ar ext ro c32 inv mk old le show ?thesis by blast
qed

lemma loop_head_inv:
  assumes ro: "residual_of n h0" and c32: "caps_in32 h0" and i0: "driver_inv graph h0 h0"
    and ar: "addReverseEdges graph h = Inr h0" and lh: "loop_head graph h h1"
  shows "driver_inv graph h0 h1"
  using lh
proof (induction rule: loop_head.induct)
  case (start h0')
  with ar i0 show ?case by simp
next
  case (round h1 h2 path minCapacity h3)
  from driver_step[OF ro c32 round.IH refl refl] round.hyps(2,3,4)
  show ?case by auto
qed

lemma caps_nonneg:
  assumes ro: "residual_of n h0" and st: "same_struct h0 h" and pi: "pair_inv h0 h"
    and nn: "\<forall>e < n. 0 \<le> capacity (edge_at h0 e)" and x: "x < edge_count h0"
  shows "0 \<le> capacity (edge_at h x)"
proof -
  from ro have res: "residual_ok h0" by (simp add: residual_of_def)
  then have po: "pairs_ok h0" by (simp add: residual_ok_def)
  from res x obtain y where y: "reverseEdge (edge_at h0 x) = Some y"
    by (auto simp: residual_ok_def)
  note p = pairs_okD[OF po y]
  show ?thesis
  proof (cases "isReverseEdge (edge_at h0 x)")
    case False
    with ro x have "x < n" by (auto simp: residual_of_def)
    with nn have "0 \<le> capacity (edge_at h0 x)" by simp
    with pair_invD[OF pi False y] show ?thesis by auto
  next
    case True
    with p(6) have "\<not> isReverseEdge (edge_at h0 y)" by simp
    from pair_invD(1)[OF pi this p(3)] show ?thesis .
  qed
qed

lemma cap_out_nonneg:
  assumes "residual_of n h0" "same_struct h0 h" "pair_inv h0 h"
    "\<forall>e < n. 0 \<le> capacity (edge_at h0 e)"
  shows "0 \<le> cap_out h v"
proof -
  have ec: "edge_count h = edge_count h0" using assms(2) by (simp add: same_struct_def)
  show ?thesis
    unfolding cap_out_def ec
    using caps_nonneg[OF assms] by (intro sum_nonneg) auto
qed

subsection \<open>Termination of the driver loop\<close>

lemma findMaxFlow_loop_stop:
  assumes "findPath h (graph_source graph) (graph_target graph) = Some (h1, p, False)"
  shows "findMaxFlow_loop graph h mf = Some (Inr (h1, mf))"
  using assms by (subst findMaxFlow_loop.simps) simp

lemma findMaxFlow_loop_round:
  assumes "findPath h (graph_source graph) (graph_target graph) = Some (h1, p, True)"
    "findMinCapacity h1 p = Inr m" "changeFlow p m h1 = Inr h2"
  shows "findMaxFlow_loop graph h mf = findMaxFlow_loop graph h2 (int32 (mf + m))"
  using assms by (subst findMaxFlow_loop.simps) simp

lemma findMaxFlow_loop_terminates:
  assumes ro: "residual_of n h0" and c32: "caps_in32 h0"
    and nn: "\<forall>e < n. 0 \<le> capacity (edge_at h0 e)"
  shows "driver_inv graph h0 h \<Longrightarrow>
         \<exists>hf mff. findMaxFlow_loop graph h mf = Some (Inr (hf, mff)) \<and>
                  loop_post n graph h0 h mf hf mff"
proof (induction "nat (cap_out h (graph_source graph))" arbitrary: h mf rule: less_induct)
  case less
  let ?s = "graph_source graph" and ?t = "graph_target graph"
  note inv = less.prems
  from driver_step[OF ro c32 inv refl refl] obtain h1 p f where
    fp: "findPath h ?s ?t = Some (h1, p, f)" and sg: "same_graph h h1"
    and inv1: "driver_inv graph h0 h1"
    and no: "\<not> f \<longrightarrow> (\<forall>q. \<not> augmenting_path h ?s ?t q)"
    and yes: "f \<longrightarrow> augmenting_path h ?s ?t p \<and> ?s \<noteq> ?t \<and>
         (\<exists>m. findMinCapacity h1 p = Inr m \<and> 0 < m \<and>
              (\<forall>e \<in> set p. m \<le> capacity (edge_at h e)) \<and>
              changeFlow p m h1 = Inr (pushes p m h1) \<and>
              driver_inv graph h0 (pushes p m h1) \<and>
              (\<forall>v. outflow n (pushes p m h1) v - inflow n (pushes p m h1) v =
                   outflow n h v - inflow n h v +
                   m * ((if v = ?s then 1 else 0) - (if v = ?t then 1 else 0))) \<and>
              (\<forall>v. cap_out (pushes p m h1) v =
                   cap_out h v - m * ((if v = ?s then 1 else 0) - (if v = ?t then 1 else 0))) \<and>
              (\<forall>e \<in> set p. capacity (edge_at (pushes p m h1) e) = capacity (edge_at h e) - m))"
    by blast
  show ?case
  proof (cases f)
    case False
    with fp have run: "findMaxFlow_loop graph h mf = Some (Inr (h1, mf))"
      by (simp add: findMaxFlow_loop_stop)
    have "loop_post n graph h0 h mf h1 mf"
      unfolding loop_post_def net_flow_def
      using inv1 no False sums_same_graph[OF sg] augmenting_path_cong[OF sg] by simp
    with run show ?thesis by blast
  next
    case True
    with yes obtain m where st: "?s \<noteq> ?t"
      and fm: "findMinCapacity h1 p = Inr m" and m0: "0 < m"
      and cf: "changeFlow p m h1 = Inr (pushes p m h1)"
      and inv2: "driver_inv graph h0 (pushes p m h1)"
      and net: "\<And>v. outflow n (pushes p m h1) v - inflow n (pushes p m h1) v =
                   outflow n h v - inflow n h v +
                   m * ((if v = ?s then 1 else 0) - (if v = ?t then 1 else 0))"
      and cap: "\<And>v. cap_out (pushes p m h1) v =
                   cap_out h v - m * ((if v = ?s then 1 else 0) - (if v = ?t then 1 else 0))"
      by blast
    let ?h2 = "pushes p m h1"
    from cap[of ?s] st have cs: "cap_out ?h2 ?s = cap_out h ?s - m" by simp
    have c2: "0 \<le> cap_out ?h2 ?s"
      using inv2 by (intro cap_out_nonneg[OF ro _ _ nn]) (simp_all add: driver_inv_def)
    from cs c2 m0 have "nat (cap_out ?h2 ?s) < nat (cap_out h ?s)" by simp
    from less.hyps[OF this inv2, of "int32 (mf + m)"] obtain hf mff where
      run2: "findMaxFlow_loop graph ?h2 (int32 (mf + m)) = Some (Inr (hf, mff))"
      and post2: "loop_post n graph h0 ?h2 (int32 (mf + m)) hf mff" by blast
    from fp True fm cf run2 have run: "findMaxFlow_loop graph h mf = Some (Inr (hf, mff))"
      by (simp add: findMaxFlow_loop_round)
    have n2: "net_flow n ?h2 v = net_flow n h v + m * ((if v = ?s then 1 else 0) - (if v = ?t then 1 else 0))"
      for v using net[of v] by (simp add: net_flow_def)
    have acc: "mff = net_flow n hf ?s"
      if b: "value_fits n graph h0 \<and> 0 \<le> mf \<and> mf = net_flow n h ?s \<and>
        (\<forall>v. v \<noteq> ?s \<and> v \<noteq> ?t \<longrightarrow> net_flow n h v = 0)"
    proof -
      have c2': "\<forall>v. v \<noteq> ?s \<and> v \<noteq> ?t \<longrightarrow> net_flow n ?h2 v = 0"
        using n2 b by simp
      with b inv2 have "net_flow n ?h2 ?s < 2 ^ 31" unfolding value_fits_def by blast
      with n2[of ?s] st b m0 have "in32 (mf + m)" by (simp add: in32_def)
      then have e: "int32 (mf + m) = mf + m" by (rule int32_id)
      from n2[of ?s] st b have "mf + m = net_flow n ?h2 ?s" by simp
      with post2 e b m0 c2' show ?thesis by (simp add: loop_post_def)
    qed
    have "loop_post n graph h0 h mf hf mff"
      unfolding loop_post_def
    proof (intro conjI allI impI)
      show "driver_inv graph h0 hf" using post2 by (simp add: loop_post_def)
      show "\<not> augmenting_path hf ?s ?t q" for q using post2 by (simp add: loop_post_def)
      show "net_flow n hf v = net_flow n h v" if "v \<noteq> ?s \<and> v \<noteq> ?t" for v
      proof -
        from post2 that have "net_flow n hf v = net_flow n ?h2 v" by (simp add: loop_post_def)
        with n2[of v] that show ?thesis by simp
      qed
      show "mff = net_flow n hf ?s"
        if "value_fits n graph h0 \<and> 0 \<le> mf \<and> mf = net_flow n h ?s \<and>
          (\<forall>v. v \<noteq> ?s \<and> v \<noteq> ?t \<longrightarrow> net_flow n h v = 0)"
        using acc[OF that] .
    qed
    with run show ?thesis by blast
  qed
qed

subsection \<open>The claims about the driver loop\<close>

lemma nonneg_int_capacities: "nonneg_capacities es \<Longrightarrow> int_capacities es"
  by (auto simp: nonneg_capacities_def int_capacities_def)

lemma int_capacities_in32: "int_capacities es \<Longrightarrow> \<forall>x \<in> set es. in32 (snd (snd x))"
  by (simp add: int_capacities_def in32_def)

text \<open>The first round of the loop on the scenario: the path \<open>S \<rightarrow> A \<rightarrow> T\<close> is found and two
  units are sent along it.\<close>

lemma scenario_round:
  "\<exists>graph h h0 h1 h2. readGraph scenario = Inr (graph, h) \<and> graph_source graph = CHR ''S'' \<and>
     graph_target graph = CHR ''T'' \<and> addReverseEdges graph h = Inr h0 \<and>
     findPath h0 (CHR ''S'') (CHR ''T'') = Some (h1, [0, 1], True) \<and>
     findMinCapacity h1 [0, 1] = Inr 2 \<and> changeFlow [0, 1] 2 h1 = Inr h2 \<and>
     edge_count h2 = 4 \<and> flow (edge_at h2 0) = 2 \<and> flow (edge_at h2 3) = - 2 \<and>
     capacity (edge_at h2 0) = 1 \<and> capacity (edge_at h2 3) = 2 \<and>
     isReverseEdge (edge_at h2 3) \<and> reverseEdge (edge_at h2 0) = Some 3"
  by (simp add: scenario_def eval_defs)

lemma scenario_loop_head:
  "\<exists>graph h h2. readGraph scenario = Inr (graph, h) \<and> loop_head graph h h2 \<and>
     edge_count h2 = 4 \<and> flow (edge_at h2 0) = 2 \<and> flow (edge_at h2 3) = - 2 \<and>
     capacity (edge_at h2 0) = 1 \<and> capacity (edge_at h2 3) = 2 \<and>
     isReverseEdge (edge_at h2 3) \<and> reverseEdge (edge_at h2 0) = Some 3"
proof -
  from scenario_round obtain graph h h0 h1 h2 where
    r: "readGraph scenario = Inr (graph, h)" "graph_source graph = CHR ''S''"
     "graph_target graph = CHR ''T''" "addReverseEdges graph h = Inr h0"
     "findPath h0 (CHR ''S'') (CHR ''T'') = Some (h1, [0, 1], True)"
     "findMinCapacity h1 [0, 1] = Inr 2" "changeFlow [0, 1] 2 h1 = Inr h2"
    and v: "edge_count h2 = 4 \<and> flow (edge_at h2 0) = 2 \<and> flow (edge_at h2 3) = - 2 \<and>
     capacity (edge_at h2 0) = 1 \<and> capacity (edge_at h2 3) = 2 \<and>
     isReverseEdge (edge_at h2 3) \<and> reverseEdge (edge_at h2 0) = Some 3"
    by blast
  have "loop_head graph h h0" using r(4) by (rule loop_head.start)
  then have "loop_head graph h h2" using r(2,3,5,6,7) by (intro loop_head.round[of graph h h0 h1 "[0, 1]" 2 h2]) simp_all
  with r(1) v show ?thesis by blast
qed

lemma scenario_capacities: "nonneg_capacities (snd (snd scenario))" "int_capacities (snd (snd scenario))"
  by (simp_all add: scenario_def nonneg_capacities_def int_capacities_def)

text \<open>The invariant at the head of the loop, for an input.\<close>

lemma loop_head_driver_inv:
  assumes rg: "readGraph (s, t, es) = Inr (graph, h)" and caps: "int_capacities es"
    and lh: "loop_head graph h h1"
  shows "\<exists>h0. addReverseEdges graph h = Inr h0 \<and> residual_of (length es) h0 \<and> caps_in32 h0 \<and>
           driver_inv graph h0 h1 \<and> length es \<le> edge_count h0 \<and>
           (\<forall>e < length es. source (edge_at h0 e) = fst (es ! e) \<and>
               target (edge_at h0 e) = fst (snd (es ! e)) \<and>
               capacity (edge_at h0 e) = snd (snd (es ! e)))"
proof -
  from driver_init[OF rg int_capacities_in32[OF caps]] obtain h0 where
    i: "addReverseEdges graph h = Inr h0" "residual_of (length es) h0" "caps_in32 h0"
      "driver_inv graph h0 h0" "length es \<le> edge_count h0"
    and e: "\<forall>e < length es. source (edge_at h0 e) = fst (es ! e) \<and>
               target (edge_at h0 e) = fst (snd (es ! e)) \<and>
               capacity (edge_at h0 e) = snd (snd (es ! e)) \<and> flow (edge_at h0 e) = 0"
    by blast
  from loop_head_inv[OF i(2,3,4,1) lh] i e show ?thesis by blast
qed

text \<open>
  Claim C2. For an input whose capacities fit an \<^verbatim>\<open>int\<close>, at the head of the loop of the
  driver (after \<^verbatim>\<open>addReverseEdges\<close>, and after every call of \<^verbatim>\<open>changeFlow\<close>), every edge
  \<open>e\<close> of the input has the reverse edge \<open>r\<close> that residual construction created for it, the
  two point at each other, \<open>flow e = - flow r\<close>, and \<open>capacity e + capacity r\<close> is the capacity
  that \<open>e\<close> has in the input. The search between two heads of the loop changes no edge.
\<close>

theorem pair_invariant_in_driver_loop:
  assumes "readGraph (s, t, es) = Inr (graph, h)" and "int_capacities es"
    and "loop_head graph h h1"
  shows "(\<forall>e < length es. \<exists>r. reverseEdge (edge_at h1 e) = Some r \<and>
            reverseEdge (edge_at h1 r) = Some e \<and> isReverseEdge (edge_at h1 r) \<and>
            \<not> isReverseEdge (edge_at h1 e) \<and>
            flow (edge_at h1 e) = - flow (edge_at h1 r) \<and>
            capacity (edge_at h1 e) + capacity (edge_at h1 r) = snd (snd (es ! e))) \<and>
         (\<forall>h2 p f. findPath h1 (graph_source graph) (graph_target graph) = Some (h2, p, f) \<longrightarrow>
            edge_at h2 = edge_at h1)"
proof -
  from loop_head_driver_inv[OF assms] obtain h0 where
    ro: "residual_of (length es) h0" and c32: "caps_in32 h0" and inv: "driver_inv graph h0 h1"
    and le: "length es \<le> edge_count h0"
    and e0: "\<forall>e < length es. capacity (edge_at h0 e) = snd (snd (es ! e))"
    by blast
  from ro have res: "residual_ok h0" by (simp add: residual_of_def)
  then have po: "pairs_ok h0" by (simp add: residual_ok_def)
  from inv have st: "same_struct h0 h1" and pi: "pair_inv h0 h1" by (simp_all add: driver_inv_def)
  have a: "\<exists>r. reverseEdge (edge_at h1 e) = Some r \<and>
            reverseEdge (edge_at h1 r) = Some e \<and> isReverseEdge (edge_at h1 r) \<and>
            \<not> isReverseEdge (edge_at h1 e) \<and>
            flow (edge_at h1 e) = - flow (edge_at h1 r) \<and>
            capacity (edge_at h1 e) + capacity (edge_at h1 r) = snd (snd (es ! e))"
    if e: "e < length es" for e
  proof -
    from e le have ec: "e < edge_count h0" by simp
    with res obtain r where r: "reverseEdge (edge_at h0 e) = Some r"
      by (auto simp: residual_ok_def)
    from ro ec e have nr: "\<not> isReverseEdge (edge_at h0 e)" by (auto simp: residual_of_def)
    note p = pairs_okD[OF po r]
    note i = pair_invD[OF pi nr r]
    from p(3,6) nr i e0 e r show ?thesis
      using same_structD(4,5)[OF st] by auto
  qed
  have b: "edge_at h2 = edge_at h1"
    if "findPath h1 (graph_source graph) (graph_target graph) = Some (h2, p, f)" for h2 p f
    using driver_step[OF ro c32 inv refl refl] that by (auto simp: same_graph_def)
  from a b show ?thesis by blast
qed

theorem pair_invariant_in_driver_loop_witness:
  "\<exists>graph h h1. readGraph scenario = Inr (graph, h) \<and> loop_head graph h h1 \<and>
     reverseEdge (edge_at h1 0) = Some 3 \<and> flow (edge_at h1 0) = 2 \<and> flow (edge_at h1 3) = - 2 \<and>
     capacity (edge_at h1 0) + capacity (edge_at h1 3) = 3 \<and>
     (\<exists>r. reverseEdge (edge_at h1 1) = Some r \<and>
          flow (edge_at h1 1) = - flow (edge_at h1 r) \<and>
          capacity (edge_at h1 1) + capacity (edge_at h1 r) = 2)"
proof -
  from scenario_loop_head obtain graph h h1 where
    r: "readGraph (CHR ''S'', CHR ''T'', [(CHR ''S'', CHR ''A'', 3), (CHR ''A'', CHR ''T'', 2)])
          = Inr (graph, h)" "loop_head graph h h1"
    and v: "reverseEdge (edge_at h1 0) = Some 3" "flow (edge_at h1 0) = 2" "flow (edge_at h1 3) = - 2"
      "capacity (edge_at h1 0) = 1" "capacity (edge_at h1 3) = 2"
    unfolding scenario_def by blast
  have c: "int_capacities [(CHR ''S'', CHR ''A'', 3), (CHR ''A'', CHR ''T'', 2)]"
    by (simp add: int_capacities_def)
  from pair_invariant_in_driver_loop[OF r(1) c r(2)]
  have "\<exists>r. reverseEdge (edge_at h1 1) = Some r \<and>
          flow (edge_at h1 1) = - flow (edge_at h1 r) \<and>
          capacity (edge_at h1 1) + capacity (edge_at h1 r) = 2"
    by (auto simp: less_Suc_eq numeral_2_eq_2)
  with r v show ?thesis unfolding scenario_def by auto
qed

text \<open>
  Claim C4. For an input whose capacities fit an \<^verbatim>\<open>int\<close>, whenever the search of the driver
  loop finds a path, \<^verbatim>\<open>findMinCapacity\<close> returns a bottleneck greater than zero that no edge
  of the path has less capacity than, and \<^verbatim>\<open>changeFlow\<close> with that amount returns without
  failing an assertion: every edge of the path loses exactly the bottleneck and keeps a
  capacity that is not negative.
\<close>

theorem changeFlow_keeps_capacity_nonnegative:
  assumes "readGraph (s, t, es) = Inr (graph, h)" and "int_capacities es"
    and "loop_head graph h h1"
    and "findPath h1 (graph_source graph) (graph_target graph) = Some (h2, path, True)"
  shows "\<exists>m h3. findMinCapacity h2 path = Inr m \<and> 0 < m \<and>
           (\<forall>e \<in> set path. m \<le> capacity (edge_at h2 e)) \<and>
           changeFlow path m h2 = Inr h3 \<and>
           (\<forall>e \<in> set path. capacity (edge_at h3 e) = capacity (edge_at h2 e) - m \<and>
                              0 \<le> capacity (edge_at h3 e))"
proof -
  from loop_head_driver_inv[OF assms(1,2,3)] obtain h0 where
    ro: "residual_of (length es) h0" and c32: "caps_in32 h0" and inv: "driver_inv graph h0 h1"
    by blast
  from driver_round[OF ro c32 inv refl refl assms(4)] obtain m where
    ea: "edge_at h2 = edge_at h1" and fm: "findMinCapacity h2 path = Inr m" and m0: "0 < m"
    and le: "\<forall>e \<in> set path. m \<le> capacity (edge_at h1 e)"
    and cf: "changeFlow path m h2 = Inr (pushes path m h2)"
    and onp: "\<forall>e \<in> set path. capacity (edge_at (pushes path m h2) e) = capacity (edge_at h1 e) - m"
    by blast
  from fm m0 le cf onp show ?thesis unfolding ea by auto
qed

theorem changeFlow_keeps_capacity_nonnegative_witness:
  "\<exists>graph h h0 h1. readGraph scenario = Inr (graph, h) \<and> loop_head graph h h0 \<and>
     findPath h0 (CHR ''S'') (CHR ''T'') = Some (h1, [0, 1], True) \<and>
     (\<exists>m h3. findMinCapacity h1 [0, 1] = Inr m \<and> 0 < m \<and> changeFlow [0, 1] m h1 = Inr h3 \<and>
        0 \<le> capacity (edge_at h3 0) \<and> 0 \<le> capacity (edge_at h3 1))"
proof -
  from scenario_round obtain graph h h0 h1 where
    r: "readGraph (CHR ''S'', CHR ''T'', [(CHR ''S'', CHR ''A'', 3), (CHR ''A'', CHR ''T'', 2)])
          = Inr (graph, h)"
      "graph_source graph = CHR ''S''" "graph_target graph = CHR ''T''"
      "addReverseEdges graph h = Inr h0"
      "findPath h0 (CHR ''S'') (CHR ''T'') = Some (h1, [0, 1], True)"
    unfolding scenario_def by blast
  have lh: "loop_head graph h h0" using r(4) by (rule loop_head.start)
  have c: "int_capacities [(CHR ''S'', CHR ''A'', 3), (CHR ''A'', CHR ''T'', 2)]"
    by (simp add: int_capacities_def)
  have fp: "findPath h0 (graph_source graph) (graph_target graph) = Some (h1, [0, 1], True)"
    using r(2,3,5) by simp
  from changeFlow_keeps_capacity_nonnegative[OF r(1) c lh fp]
  have "\<exists>m h3. findMinCapacity h1 [0, 1] = Inr m \<and> 0 < m \<and> changeFlow [0, 1] m h1 = Inr h3 \<and>
        0 \<le> capacity (edge_at h3 0) \<and> 0 \<le> capacity (edge_at h3 1)"
    by auto
  with r(1,5) lh show ?thesis unfolding scenario_def by blast
qed

lemma flow_bounds:
  assumes ro: "residual_of n h0" and st: "same_struct h0 h" and pi: "pair_inv h0 h"
    and nn: "\<forall>e < n. 0 \<le> capacity (edge_at h0 e)" and le: "n \<le> edge_count h0"
  shows "\<forall>e < n. 0 \<le> flow (edge_at h e) \<and> flow (edge_at h e) \<le> capacity (edge_at h0 e)"
    and "\<forall>r. n \<le> r \<and> r < edge_count h0 \<longrightarrow>
           (\<exists>e < n. reverseEdge (edge_at h0 r) = Some e \<and>
              - capacity (edge_at h0 e) \<le> flow (edge_at h r) \<and> flow (edge_at h r) \<le> 0)"
proof -
  from ro have res: "residual_ok h0" by (simp add: residual_of_def)
  then have po: "pairs_ok h0" by (simp add: residual_ok_def)
  have pair: "0 \<le> flow (edge_at h e) \<and> flow (edge_at h e) \<le> capacity (edge_at h0 e) \<and>
      - capacity (edge_at h0 e) \<le> flow (edge_at h r) \<and> flow (edge_at h r) \<le> 0"
    if "\<not> isReverseEdge (edge_at h0 e)" "reverseEdge (edge_at h0 e) = Some r" for e r
  proof -
    note p = pairs_okD[OF po that(2)]
    from caps_nonneg[OF ro st pi nn p(1)] have "0 \<le> capacity (edge_at h e)" .
    with pair_invD[OF pi that] show ?thesis by auto
  qed
  show "\<forall>e < n. 0 \<le> flow (edge_at h e) \<and> flow (edge_at h e) \<le> capacity (edge_at h0 e)"
  proof (intro allI impI)
    fix e assume e: "e < n"
    with le have ec: "e < edge_count h0" by simp
    with ro e have nr: "\<not> isReverseEdge (edge_at h0 e)" by (auto simp: residual_of_def)
    from res ec obtain r where "reverseEdge (edge_at h0 e) = Some r" by (auto simp: residual_ok_def)
    from pair[OF nr this]
    show "0 \<le> flow (edge_at h e) \<and> flow (edge_at h e) \<le> capacity (edge_at h0 e)" by simp
  qed
  show "\<forall>r. n \<le> r \<and> r < edge_count h0 \<longrightarrow>
           (\<exists>e < n. reverseEdge (edge_at h0 r) = Some e \<and>
              - capacity (edge_at h0 e) \<le> flow (edge_at h r) \<and> flow (edge_at h r) \<le> 0)"
  proof (intro allI impI)
    fix r assume r: "n \<le> r \<and> r < edge_count h0"
    with ro have rv: "isReverseEdge (edge_at h0 r)" by (auto simp: residual_of_def)
    from res r obtain e where e: "reverseEdge (edge_at h0 r) = Some e" by (auto simp: residual_ok_def)
    note p = pairs_okD[OF po e]
    from p(6) rv have nr: "\<not> isReverseEdge (edge_at h0 e)" by simp
    with ro p(2) have "e < n" by (auto simp: residual_of_def)
    with pair[OF nr p(3)] e
    show "\<exists>e < n. reverseEdge (edge_at h0 r) = Some e \<and>
              - capacity (edge_at h0 e) \<le> flow (edge_at h r) \<and> flow (edge_at h r) \<le> 0" by auto
  qed
qed

lemma nonneg_heap_capacities:
  assumes "nonneg_capacities es"
    "\<forall>e < length es. capacity (edge_at h0 e) = snd (snd (es ! e))"
  shows "\<forall>e < length es. 0 \<le> capacity (edge_at h0 e)"
  using assms by (simp add: nonneg_capacities_def)

text \<open>The reverse edges mirror the flow of their partners, as every pair does.\<close>

lemma reverse_flow_bounds_in_driver_loop:
  assumes "readGraph (s, t, es) = Inr (graph, h)" and "nonneg_capacities es"
    and "loop_head graph h h1"
  shows "\<forall>r. length es \<le> r \<and> r < edge_count h1 \<longrightarrow>
            (\<exists>e < length es. reverseEdge (edge_at h1 r) = Some e \<and>
               - snd (snd (es ! e)) \<le> flow (edge_at h1 r) \<and> flow (edge_at h1 r) \<le> 0)"
proof (intro allI impI)
  fix r assume r: "length es \<le> r \<and> r < edge_count h1"
  from loop_head_driver_inv[OF assms(1) nonneg_int_capacities[OF assms(2)] assms(3)] obtain h0 where
    ro: "residual_of (length es) h0" and inv: "driver_inv graph h0 h1"
    and le: "length es \<le> edge_count h0"
    and e0: "\<forall>e < length es. capacity (edge_at h0 e) = snd (snd (es ! e))"
    by blast
  from inv have st: "same_struct h0 h1" and pi: "pair_inv h0 h1" by (simp_all add: driver_inv_def)
  note nn = nonneg_heap_capacities[OF assms(2) e0]
  note fb = flow_bounds[OF ro st pi nn le]
  from r same_structD(1)[OF st] have "length es \<le> r \<and> r < edge_count h0" by simp
  with fb(2) obtain e where "e < length es" "reverseEdge (edge_at h0 r) = Some e"
    "- capacity (edge_at h0 e) \<le> flow (edge_at h1 r)" "flow (edge_at h1 r) \<le> 0" by blast
  with e0 same_structD(5)[OF st, of r]
  show "\<exists>e < length es. reverseEdge (edge_at h1 r) = Some e \<and>
               - snd (snd (es ! e)) \<le> flow (edge_at h1 r) \<and> flow (edge_at h1 r) \<le> 0" by auto
qed

text \<open>
  Claim C5, as stated, fails on an input with a negative capacity, which the program reads
  as it reads any other: on the single edge \<open>S \<rightarrow> T\<close> of capacity \<open>-5\<close> the edge has, after
  residual construction, the flow 0, which is above its original capacity. No path is found
  (the search asks for a capacity above 0) and the program prints the flow 0.
\<close>

theorem negative_capacity_breaks_flow_bound:
  "int_capacities (snd (snd negative_capacity)) \<and>
   (\<exists>graph h h0. readGraph negative_capacity = Inr (graph, h) \<and>
      capacity (edge_at h 0) = - 5 \<and> addReverseEdges graph h = Inr h0 \<and>
      loop_head graph h h0 \<and> \<not> isReverseEdge (edge_at h0 0) \<and>
      flow (edge_at h0 0) = 0 \<and> capacity (edge_at h 0) < flow (edge_at h0 0)) \<and>
   main negative_capacity = Some (Inr (0, [(CHR ''S'', CHR ''T'', 0)]))"
proof (intro conjI)
  show "int_capacities (snd (snd negative_capacity))"
    by (simp add: negative_capacity_def int_capacities_def)
  have "\<exists>graph h h0. readGraph negative_capacity = Inr (graph, h) \<and>
      capacity (edge_at h 0) = - 5 \<and> addReverseEdges graph h = Inr h0 \<and>
      \<not> isReverseEdge (edge_at h0 0) \<and> flow (edge_at h0 0) = 0"
    by (simp add: negative_capacity_def eval_defs)
  then obtain graph h h0 where
    r: "readGraph negative_capacity = Inr (graph, h)" "capacity (edge_at h 0) = - 5"
      "addReverseEdges graph h = Inr h0" "\<not> isReverseEdge (edge_at h0 0)"
      "flow (edge_at h0 0) = 0" by blast
  from r(3) have "loop_head graph h h0" by (rule loop_head.start)
  with r show "\<exists>graph h h0. readGraph negative_capacity = Inr (graph, h) \<and>
      capacity (edge_at h 0) = - 5 \<and> addReverseEdges graph h = Inr h0 \<and>
      loop_head graph h h0 \<and> \<not> isReverseEdge (edge_at h0 0) \<and>
      flow (edge_at h0 0) = 0 \<and> capacity (edge_at h 0) < flow (edge_at h0 0)"
    by (intro exI[of _ graph] exI[of _ h] exI[of _ h0]) simp
  show "main negative_capacity = Some (Inr (0, [(CHR ''S'', CHR ''T'', 0)]))"
    apply (simp add: negative_capacity_def eval_defs)
    apply (subst findMaxFlow_loop.simps)
    apply (simp add: eval_defs)
    done
qed

text \<open>
  Claim C5, amended. For an input whose capacities are non-negative and fit an \<^verbatim>\<open>int\<close>, at
  every point of the loop of the driver (after residual construction, and before and after
  every augmentation) every edge of the input satisfies \<open>0 \<le> flow \<le> originalCapacity\<close>, where
  \<open>originalCapacity\<close> is the capacity that the edge has in the input, before residual
  construction. The bounds hold at every head of the loop, and the search between two heads
  of the loop changes no edge.
\<close>

theorem flow_bounds_in_driver_loop:
  assumes "readGraph (s, t, es) = Inr (graph, h)" and "nonneg_capacities es"
    and "loop_head graph h h1"
  shows "(\<forall>e < length es. \<not> isReverseEdge (edge_at h1 e) \<and> capacity (edge_at h e) = snd (snd (es ! e)) \<and>
            0 \<le> flow (edge_at h1 e) \<and> flow (edge_at h1 e) \<le> capacity (edge_at h e)) \<and>
         (\<forall>e. e < edge_count h1 \<and> \<not> isReverseEdge (edge_at h1 e) \<longrightarrow> e < length es) \<and>
         (\<forall>h2 p f. findPath h1 (graph_source graph) (graph_target graph) = Some (h2, p, f) \<longrightarrow>
            edge_at h2 = edge_at h1)"
proof -
  note rp = readGraph_props[OF assms(1)]
  from loop_head_driver_inv[OF assms(1) nonneg_int_capacities[OF assms(2)] assms(3)] obtain h0 where
    ro: "residual_of (length es) h0" and c32: "caps_in32 h0" and inv: "driver_inv graph h0 h1"
    and le: "length es \<le> edge_count h0"
    and e0: "\<forall>e < length es. capacity (edge_at h0 e) = snd (snd (es ! e))"
    by blast
  from inv have st: "same_struct h0 h1" and pi: "pair_inv h0 h1" by (simp_all add: driver_inv_def)
  note nn = nonneg_heap_capacities[OF assms(2) e0]
  note fb = flow_bounds[OF ro st pi nn le]
  have a: "\<not> isReverseEdge (edge_at h1 e) \<and> capacity (edge_at h e) = snd (snd (es ! e)) \<and>
            0 \<le> flow (edge_at h1 e) \<and> flow (edge_at h1 e) \<le> capacity (edge_at h e)"
    if e: "e < length es" for e
  proof -
    from e le have ec: "e < edge_count h0" by simp
    with ro e have "\<not> isReverseEdge (edge_at h0 e)" by (auto simp: residual_of_def)
    with same_structD(4)[OF st, of e] have nr: "\<not> isReverseEdge (edge_at h1 e)" by simp
    from rp(7)[OF e] have c: "capacity (edge_at h e) = snd (snd (es ! e))"
      by (simp add: input_Edge_def)
    from fb(1) e e0 c nr show ?thesis by simp
  qed
  have b: "e < length es" if "e < edge_count h1 \<and> \<not> isReverseEdge (edge_at h1 e)" for e
  proof -
    from that same_structD(1)[OF st] same_structD(4)[OF st, of e]
    have "e < edge_count h0" "\<not> isReverseEdge (edge_at h0 e)" by simp_all
    with ro show ?thesis by (auto simp: residual_of_def)
  qed
  have c: "edge_at h2 = edge_at h1"
    if "findPath h1 (graph_source graph) (graph_target graph) = Some (h2, p, f)" for h2 p f
    using driver_step[OF ro c32 inv refl refl] that by (auto simp: same_graph_def)
  from a b c show ?thesis by blast
qed

theorem flow_bounds_in_driver_loop_witness:
  "nonneg_capacities (snd (snd scenario)) \<and>
   (\<exists>graph h h1. readGraph scenario = Inr (graph, h) \<and> loop_head graph h h1 \<and>
      flow (edge_at h1 0) = 2 \<and> capacity (edge_at h 0) = 3 \<and>
      0 \<le> flow (edge_at h1 1) \<and> flow (edge_at h1 1) \<le> capacity (edge_at h 1))"
proof -
  from scenario_loop_head obtain graph h h1 where
    r: "readGraph (CHR ''S'', CHR ''T'', [(CHR ''S'', CHR ''A'', 3), (CHR ''A'', CHR ''T'', 2)])
          = Inr (graph, h)" "loop_head graph h h1"
    and v: "flow (edge_at h1 0) = 2"
    unfolding scenario_def by blast
  have c: "nonneg_capacities [(CHR ''S'', CHR ''A'', 3), (CHR ''A'', CHR ''T'', 2)]"
    by (simp add: nonneg_capacities_def)
  from flow_bounds_in_driver_loop[OF r(1) c r(2)]
  have "capacity (edge_at h 0) = 3 \<and>
      0 \<le> flow (edge_at h1 1) \<and> flow (edge_at h1 1) \<le> capacity (edge_at h 1)"
    by (auto simp: less_Suc_eq numeral_2_eq_2)
  with r v c show ?thesis unfolding scenario_def snd_conv by blast
qed

lemma net_flow_start:
  assumes "\<forall>e < n. flow (edge_at h0 e) = 0"
  shows "net_flow n h0 v = 0"
proof -
  have "outflow n h0 v = 0" unfolding outflow_def using assms by (intro sum.neutral) auto
  moreover have "inflow n h0 v = 0" unfolding inflow_def using assms by (intro sum.neutral) auto
  ultimately show ?thesis by (simp add: net_flow_def)
qed

lemma net_flow_le_capacity_out:
  assumes fb: "\<forall>e < length es. 0 \<le> flow (edge_at h e) \<and> flow (edge_at h e) \<le> snd (snd (es ! e))"
    and src: "\<forall>e < length es. source (edge_at h e) = fst (es ! e)"
  shows "net_flow (length es) h v \<le> capacity_out es v"
proof -
  have "outflow (length es) h v \<le> capacity_out es v"
    unfolding outflow_def capacity_out_def using fb src by (intro sum_mono) auto
  moreover have "0 \<le> inflow (length es) h v"
    unfolding inflow_def using fb by (intro sum_nonneg) auto
  ultimately show ?thesis by (simp add: net_flow_def)
qed

text \<open>The run of \<^verbatim>\<open>findMaxFlow\<close> on an input with non-negative capacities.\<close>

lemma findMaxFlow_run:
  assumes rg: "readGraph (s, t, es) = Inr (graph, h)" and caps: "nonneg_capacities es"
  shows "\<exists>h0 hf mf. addReverseEdges graph h = Inr h0 \<and>
           findMaxFlow graph h = Some (Inr (hf, mf)) \<and>
           residual_of (length es) h0 \<and> length es \<le> edge_count h0 \<and>
           (\<forall>x. length es \<le> x \<and> x < edge_count h0 \<longrightarrow> capacity (edge_at h0 x) = 0) \<and>
           (\<forall>e < length es. source (edge_at h0 e) = fst (es ! e) \<and>
               target (edge_at h0 e) = fst (snd (es ! e)) \<and>
               capacity (edge_at h0 e) = snd (snd (es ! e)) \<and> flow (edge_at h0 e) = 0) \<and>
           loop_post (length es) graph h0 h0 0 hf mf"
proof -
  from driver_init[OF rg int_capacities_in32[OF nonneg_int_capacities[OF caps]]] obtain h0 where
    ar: "addReverseEdges graph h = Inr h0" and ext: "extends h h0"
    and ro: "residual_of (length es) h0"
    and c32: "caps_in32 h0" and inv: "driver_inv graph h0 h0" and le: "length es \<le> edge_count h0"
    and e0: "\<forall>e < length es. source (edge_at h0 e) = fst (es ! e) \<and>
               target (edge_at h0 e) = fst (snd (es ! e)) \<and>
               capacity (edge_at h0 e) = snd (snd (es ! e)) \<and> flow (edge_at h0 e) = 0"
    by blast
  have nn: "\<forall>e < length es. 0 \<le> capacity (edge_at h0 e)"
    using caps e0 by (simp add: nonneg_capacities_def)
  from findMaxFlow_loop_terminates[OF ro c32 nn inv, of 0] obtain hf mf where
    run: "findMaxFlow_loop graph h0 0 = Some (Inr (hf, mf))"
    and post: "loop_post (length es) graph h0 h0 0 hf mf" by blast
  have new: "\<forall>x. length es \<le> x \<and> x < edge_count h0 \<longrightarrow> capacity (edge_at h0 x) = 0"
    using extends_new(2)[OF ext] readGraph_props(6)[OF rg] by simp
  from ar run have "findMaxFlow graph h = Some (Inr (hf, mf))" by (simp add: findMaxFlow_def)
  with ar ro le e0 post new show ?thesis by blast
qed

text \<open>The states of the loop are the arguments of the calls of the loop.\<close>

lemma loop_state_loop_head: "loop_state graph h h1 mf \<Longrightarrow> loop_head graph h h1"
  by (induction rule: loop_state.induct) (auto intro: loop_head.intros)

lemma loop_head_loop_state: "loop_head graph h h1 \<Longrightarrow> \<exists>mf. loop_state graph h h1 mf"
  by (induction rule: loop_head.induct) (blast intro: loop_state.intros)+

lemma loop_state_run:
  "loop_state graph h h1 mf \<Longrightarrow> findMaxFlow graph h = findMaxFlow_loop graph h1 mf"
proof (induction rule: loop_state.induct)
  case (start h0)
  then show ?case by (simp add: findMaxFlow_def)
next
  case (round h1 maxFlow h2 path m h3)
  have "findMaxFlow_loop graph h1 maxFlow = findMaxFlow_loop graph h3 (int32 (maxFlow + m))"
    by (subst findMaxFlow_loop.simps) (simp add: round.hyps)
  with round.IH show ?case by simp
qed

lemma int32_add_left: "int32 (int32 a + m) = int32 (a + m)"
proof -
  have "take_bit (Suc 31) (signed_take_bit 31 a + m) = take_bit (Suc 31) (a + m)"
    by (metis take_bit_add take_bit_signed_take_bit order_refl)
  then show ?thesis
    unfolding int32_def by (simp only: signed_take_bit_eq_iff_take_bit_eq)
qed

text \<open>One round of the loop raises the flow that leaves the source by the bottleneck.\<close>

lemma driver_round_net:
  assumes rg: "readGraph (s, t, es) = Inr (graph, h)" and caps: "nonneg_capacities es"
    and lh: "loop_head graph h h1" and fp: "findPath h1 s t = Some (h2, path, True)"
  shows "\<exists>m h3. findMinCapacity h2 path = Inr m \<and> 0 < m \<and> changeFlow path m h2 = Inr h3 \<and>
               net_flow (length es) h3 s = net_flow (length es) h1 s + m \<and>
               net_flow (length es) h3 s \<le> capacity_out es s"
proof -
  note rp = readGraph_props(1,2)[OF rg]
  from loop_head_driver_inv[OF rg nonneg_int_capacities[OF caps] lh] obtain h0 where
    ro: "residual_of (length es) h0" and c32: "caps_in32 h0" and inv: "driver_inv graph h0 h1"
    and le: "length es \<le> edge_count h0"
    and e0: "\<forall>e < length es. source (edge_at h0 e) = fst (es ! e) \<and>
             target (edge_at h0 e) = fst (snd (es ! e)) \<and>
             capacity (edge_at h0 e) = snd (snd (es ! e))"
    by blast
  from driver_round[OF ro c32 inv rp(1)[symmetric] rp(2)[symmetric] fp] obtain m where
    st: "s \<noteq> t" and fm: "findMinCapacity h2 path = Inr m" and m0: "0 < m"
    and cf: "changeFlow path m h2 = Inr (pushes path m h2)"
    and inv3: "driver_inv graph h0 (pushes path m h2)"
    and net: "\<forall>v. outflow (length es) (pushes path m h2) v - inflow (length es) (pushes path m h2) v =
                 outflow (length es) h1 v - inflow (length es) h1 v +
                 m * ((if v = s then 1 else 0) - (if v = t then 1 else 0))"
    by blast
  let ?h3 = "pushes path m h2"
  from net[rule_format, of s] st
  have n3: "net_flow (length es) ?h3 s = net_flow (length es) h1 s + m"
    by (simp add: net_flow_def)
  from inv3 have st3: "same_struct h0 ?h3" and pi3: "pair_inv h0 ?h3"
    by (simp_all add: driver_inv_def)
  have nn: "\<forall>e < length es. 0 \<le> capacity (edge_at h0 e)"
    using caps e0 by (simp add: nonneg_capacities_def)
  from flow_bounds(1)[OF ro st3 pi3 nn le] e0
  have fb: "\<forall>e < length es. 0 \<le> flow (edge_at ?h3 e) \<and> flow (edge_at ?h3 e) \<le> snd (snd (es ! e))"
    by simp
  have src: "\<forall>e < length es. source (edge_at ?h3 e) = fst (es ! e)"
    using e0 same_structD(2)[OF st3] by simp
  from net_flow_le_capacity_out[OF fb src] fm m0 cf n3 show ?thesis by blast
qed

text \<open>The variable \<^verbatim>\<open>maxFlow\<close> holds the flow that leaves the source, wrapped to 32 bits.\<close>

lemma loop_state_accumulator:
  assumes rg: "readGraph (s, t, es) = Inr (graph, h)" and caps: "nonneg_capacities es"
    and ls: "loop_state graph h h1 mf"
  shows "mf = int32 (net_flow (length es) h1 s) \<and> 0 \<le> net_flow (length es) h1 s"
  using ls
proof (induction rule: loop_state.induct)
  case (start h0)
  from driver_init[OF rg int_capacities_in32[OF nonneg_int_capacities[OF caps]]] start obtain
    e0: "\<forall>e < length es. flow (edge_at h0 e) = 0" by auto
  from net_flow_start[OF e0, of s] show ?case by (simp add: int32_def)
next
  case (round h1 maxFlow h2 path m h3)
  note rp = readGraph_props(1,2)[OF rg]
  from round.hyps(2) rp have fp: "findPath h1 s t = Some (h2, path, True)" by simp
  from driver_round_net[OF rg caps loop_state_loop_head[OF round.hyps(1)] fp] round.hyps(3,4)
  have m: "0 < m" "net_flow (length es) h3 s = net_flow (length es) h1 s + m" by auto
  with round.IH show ?case by (simp add: int32_add_left)
qed

text \<open>
  Claim C9, as stated, fails where it says that the accumulated flow strictly increases in
  each iteration: the variable \<^verbatim>\<open>maxFlow\<close> is an \<^verbatim>\<open>int\<close>, and \<^verbatim>\<open>maxFlow += minCapacity\<close> wraps.
  On two disjoint paths of capacity \<open>2147483647\<close> each, the loop is entered a second time with
  \<^verbatim>\<open>maxFlow = 2147483647\<close>, finds a path of bottleneck \<open>2147483647\<close>, and leaves the round with
  \<^verbatim>\<open>maxFlow = -2\<close>.
\<close>

theorem accumulated_flow_decreases:
  "nonneg_capacities (snd (snd two_full_paths)) \<and>
   (\<exists>graph h h1 h2 path h3. readGraph two_full_paths = Inr (graph, h) \<and>
      loop_state graph h h1 2147483647 \<and>
      findPath h1 (graph_source graph) (graph_target graph) = Some (h2, path, True) \<and>
      findMinCapacity h2 path = Inr 2147483647 \<and>
      changeFlow path 2147483647 h2 = Inr h3 \<and>
      loop_state graph h h3 (- 2))"
proof -
  have "\<exists>graph h h0 h1 h2 h3 h4. readGraph two_full_paths = Inr (graph, h) \<and>
      addReverseEdges graph h = Inr h0 \<and>
      findPath h0 (graph_source graph) (graph_target graph) = Some (h1, [2, 3], True) \<and>
      findMinCapacity h1 [2, 3] = Inr 2147483647 \<and>
      changeFlow [2, 3] 2147483647 h1 = Inr h2 \<and>
      findPath h2 (graph_source graph) (graph_target graph) = Some (h3, [0, 1], True) \<and>
      findMinCapacity h3 [0, 1] = Inr 2147483647 \<and>
      changeFlow [0, 1] 2147483647 h3 = Inr h4"
    by (simp add: two_full_paths_def eval_defs)
  then obtain graph h h0 h1 h2 h3 h4 where
    r: "readGraph two_full_paths = Inr (graph, h)"
    and a: "addReverseEdges graph h = Inr h0"
    and r1: "findPath h0 (graph_source graph) (graph_target graph) = Some (h1, [2, 3], True)"
      "findMinCapacity h1 [2, 3] = Inr 2147483647"
      "changeFlow [2, 3] 2147483647 h1 = Inr h2"
    and r2: "findPath h2 (graph_source graph) (graph_target graph) = Some (h3, [0, 1], True)"
      "findMinCapacity h3 [0, 1] = Inr 2147483647"
      "changeFlow [0, 1] 2147483647 h3 = Inr h4"
    by blast
  from a have s0: "loop_state graph h h0 0" by (rule loop_state.start)
  from loop_state.round[OF s0 r1]
  have s1: "loop_state graph h h2 2147483647" by (simp add: int32_def)
  from loop_state.round[OF s1 r2]
  have s2: "loop_state graph h h4 (- 2)" by (simp add: int32_def)
  have c: "nonneg_capacities (snd (snd two_full_paths))"
    by (simp add: two_full_paths_def nonneg_capacities_def)
  from r s1 r2 s2 have "\<exists>graph h h1 h2 path h3. readGraph two_full_paths = Inr (graph, h) \<and>
      loop_state graph h h1 2147483647 \<and>
      findPath h1 (graph_source graph) (graph_target graph) = Some (h2, path, True) \<and>
      findMinCapacity h2 path = Inr 2147483647 \<and>
      changeFlow path 2147483647 h2 = Inr h3 \<and>
      loop_state graph h h3 (- 2)" by blast
  with c show ?thesis by simp
qed

text \<open>
  Claim C9, amended. For every input whose capacities are non-negative and fit an \<^verbatim>\<open>int\<close>,
  \<^verbatim>\<open>findMaxFlow\<close> returns: the loop of the driver runs finitely many rounds. In every round
  that finds a path the bottleneck is greater than zero, and \<^verbatim>\<open>changeFlow\<close> raises the flow
  that the edges of the input carry out of the source (net of the flow that they carry into
  it) by exactly the bottleneck; that flow never exceeds the total capacity of the input edges
  that leave the source. The accumulated flow, the variable \<^verbatim>\<open>maxFlow\<close>, is that flow wrapped
  to 32 bits: as long as the flow after the round is at most \<open>2^31 - 1\<close> (as it is whenever the
  total capacity out of the source is), the variable equals the flow and strictly increases
  in the round.
\<close>

theorem findMaxFlow_terminates:
  assumes "readGraph (s, t, es) = Inr (graph, h)" and "nonneg_capacities es"
  shows "(\<exists>hf mf. findMaxFlow graph h = Some (Inr (hf, mf))) \<and>
         (\<forall>h1 maxFlow h2 path.
            loop_state graph h h1 maxFlow \<and> findPath h1 s t = Some (h2, path, True) \<longrightarrow>
            (\<exists>m h3. findMinCapacity h2 path = Inr m \<and> 0 < m \<and> changeFlow path m h2 = Inr h3 \<and>
               loop_state graph h h3 (int32 (maxFlow + m)) \<and>
               net_flow (length es) h3 s = net_flow (length es) h1 s + m \<and>
               net_flow (length es) h3 s \<le> capacity_out es s \<and>
               maxFlow = int32 (net_flow (length es) h1 s) \<and>
               (net_flow (length es) h3 s < 2 ^ 31 \<longrightarrow>
                  maxFlow = net_flow (length es) h1 s \<and>
                  int32 (maxFlow + m) = maxFlow + m \<and> maxFlow < int32 (maxFlow + m)))) \<and>
         (\<forall>h1. loop_head graph h h1 \<longrightarrow> (\<exists>maxFlow. loop_state graph h h1 maxFlow))"
proof -
  note rp = readGraph_props(1,2)[OF assms(1)]
  from findMaxFlow_run[OF assms] have a: "\<exists>hf mf. findMaxFlow graph h = Some (Inr (hf, mf))"
    by blast
  have b: "\<exists>m h3. findMinCapacity h2 path = Inr m \<and> 0 < m \<and> changeFlow path m h2 = Inr h3 \<and>
               loop_state graph h h3 (int32 (maxFlow + m)) \<and>
               net_flow (length es) h3 s = net_flow (length es) h1 s + m \<and>
               net_flow (length es) h3 s \<le> capacity_out es s \<and>
               maxFlow = int32 (net_flow (length es) h1 s) \<and>
               (net_flow (length es) h3 s < 2 ^ 31 \<longrightarrow>
                  maxFlow = net_flow (length es) h1 s \<and>
                  int32 (maxFlow + m) = maxFlow + m \<and> maxFlow < int32 (maxFlow + m))"
    if ls: "loop_state graph h h1 maxFlow" and fp: "findPath h1 s t = Some (h2, path, True)"
    for h1 maxFlow h2 path
  proof -
    from driver_round_net[OF assms loop_state_loop_head[OF ls] fp] obtain m h3 where
      fm: "findMinCapacity h2 path = Inr m" and m0: "0 < m"
      and cf: "changeFlow path m h2 = Inr h3"
      and n3: "net_flow (length es) h3 s = net_flow (length es) h1 s + m"
      and le: "net_flow (length es) h3 s \<le> capacity_out es s" by blast
    from fp rp have fp': "findPath h1 (graph_source graph) (graph_target graph) = Some (h2, path, True)"
      by simp
    from loop_state.round[OF ls fp' fm cf]
    have ls3: "loop_state graph h h3 (int32 (maxFlow + m))" .
    from loop_state_accumulator[OF assms ls]
    have acc: "maxFlow = int32 (net_flow (length es) h1 s)" and n0: "0 \<le> net_flow (length es) h1 s"
      by simp_all
    have fit: "maxFlow = net_flow (length es) h1 s \<and>
        int32 (maxFlow + m) = maxFlow + m \<and> maxFlow < int32 (maxFlow + m)"
      if lt: "net_flow (length es) h3 s < 2 ^ 31"
    proof -
      from lt n3 m0 n0 have i1: "in32 (net_flow (length es) h1 s)"
        and i3: "in32 (net_flow (length es) h1 s + m)" by (simp_all add: in32_def)
      from acc int32_id[OF i1] have e: "maxFlow = net_flow (length es) h1 s" by simp
      with int32_id[OF i3] m0 show ?thesis by simp
    qed
    from fm m0 cf ls3 n3 le acc fit show ?thesis by blast
  qed
  have c: "\<exists>maxFlow. loop_state graph h h1 maxFlow" if "loop_head graph h h1" for h1
    using that by (rule loop_head_loop_state)
  from a b c show ?thesis by blast
qed

theorem findMaxFlow_terminates_witness:
  "nonneg_capacities (snd (snd scenario)) \<and>
   (\<exists>graph h h0 h1. readGraph scenario = Inr (graph, h) \<and>
      (\<exists>hf mf. findMaxFlow graph h = Some (Inr (hf, mf))) \<and>
      loop_state graph h h0 0 \<and> findPath h0 (CHR ''S'') (CHR ''T'') = Some (h1, [0, 1], True) \<and>
      (\<exists>m h3. findMinCapacity h1 [0, 1] = Inr m \<and> 0 < m \<and> changeFlow [0, 1] m h1 = Inr h3 \<and>
         loop_state graph h h3 (0 + m) \<and> 0 < int32 (0 + m)))"
proof -
  let ?es = "[(CHR ''S'', CHR ''A'', 3::int), (CHR ''A'', CHR ''T'', 2)]"
  from scenario_round obtain graph h h0 h1 where
    r: "readGraph (CHR ''S'', CHR ''T'', ?es) = Inr (graph, h)"
    and a: "addReverseEdges graph h = Inr h0"
    and fp: "findPath h0 (CHR ''S'') (CHR ''T'') = Some (h1, [0, 1], True)"
    unfolding scenario_def by blast
  have c: "nonneg_capacities ?es" by (simp add: nonneg_capacities_def)
  from a have s0: "loop_state graph h h0 0" by (rule loop_state.start)
  have co: "capacity_out ?es (CHR ''S'') = 3"
    by (simp add: capacity_out_def numeral_2_eq_2)
  note t = findMaxFlow_terminates[OF r c]
  from t have ret: "\<exists>hf mf. findMaxFlow graph h = Some (Inr (hf, mf))" by (rule conjunct1)
  from t[THEN conjunct2, THEN conjunct1, rule_format, of h0 0 h1 "[0, 1]"] s0 fp
  obtain m h3 where
    m: "findMinCapacity h1 [0, 1] = Inr m" "0 < m" "changeFlow [0, 1] m h1 = Inr h3"
      "loop_state graph h h3 (int32 (0 + m))"
      "net_flow (length ?es) h3 (CHR ''S'') \<le> capacity_out ?es (CHR ''S'')"
    and fit: "net_flow (length ?es) h3 (CHR ''S'') < 2 ^ 31 \<longrightarrow>
        int32 (0 + m) = 0 + m \<and> 0 < int32 (0 + m)" by blast
  from m(5) co have "net_flow (length ?es) h3 (CHR ''S'') < 2 ^ 31" by simp
  with fit have f: "int32 (0 + m) = 0 + m" "0 < int32 (0 + m)" by simp_all
  from m(4) f(1) have ls3: "loop_state graph h h3 (0 + m)" by simp
  from m(1,2,3) ls3 f(2)
  have "\<exists>m h3. findMinCapacity h1 [0, 1] = Inr m \<and> 0 < m \<and> changeFlow [0, 1] m h1 = Inr h3 \<and>
         loop_state graph h h3 (0 + m) \<and> 0 < int32 (0 + m)" by blast
  with r ret s0 fp c show ?thesis unfolding scenario_def snd_conv by blast
qed



subsection \<open>The claims about graph construction\<close>

lemma antiparallel_read:
  "\<exists>graph h h'. readGraph antiparallel = Inr (graph, h) \<and> addReverseEdges graph h = Inr h'"
  by (simp add: antiparallel_def eval_defs)

text \<open>
  Claim C7, as stated, fails where it says that an edge whose reverse direction is itself an
  edge of the input is skipped: \<^verbatim>\<open>addReverseEdges\<close> skips an edge only when its
  \<^verbatim>\<open>reverseEdge\<close> pointer is set, and \<^verbatim>\<open>readGraph\<close> sets no such pointer. On the input with
  the edges \<open>A \<rightarrow> B\<close> (edge 0) and \<open>B \<rightarrow> A\<close> (edge 1), edge 0 is not paired with edge 1: it gets
  the new reverse edge 2, and the two edges of the input become four.
\<close>

theorem antiparallel_edges_get_new_reverse_edges:
  "\<exists>graph h h'. readGraph antiparallel = Inr (graph, h) \<and> edge_count h = 2 \<and>
     addReverseEdges graph h = Inr h' \<and> edge_count h' = 4 \<and>
     reverseEdge (edge_at h' 0) = Some 2 \<and> isReverseEdge (edge_at h' 2) \<and>
     reverseEdge (edge_at h' 1) = Some 3 \<and> isReverseEdge (edge_at h' 3)"
  by (simp add: antiparallel_def eval_defs)

text \<open>
  Claim C7, amended. \<^verbatim>\<open>addReverseEdges\<close> skips an edge exactly when its \<^verbatim>\<open>reverseEdge\<close>
  pointer is already set (the body of its loop leaves the heap as it is). On the graph that
  \<^verbatim>\<open>readGraph\<close> builds it gives every edge of the input, also one whose reverse direction is
  an edge of the input, a companion of its own: a new edge directed target \<open>\<rightarrow>\<close> source with
  capacity 0 and flow 0, marked as a reverse edge, inserted into the edge set of the target
  vertex, the two linked to each other; every new edge is the companion of exactly one input
  edge, the one its own link names.
  Running \<^verbatim>\<open>addReverseEdges\<close> a second time leaves the heap unchanged.
\<close>

theorem addReverseEdges_pairs_every_input_edge:
  assumes "readGraph (s, t, es) = Inr (graph, h)"
  shows "\<exists>h'. addReverseEdges graph h = Inr h' \<and>
     (\<forall>e < length es. \<exists>r. length es \<le> r \<and> r < edge_count h' \<and>
        source (edge_at h' e) = fst (es ! e) \<and> target (edge_at h' e) = fst (snd (es ! e)) \<and>
        capacity (edge_at h' e) = snd (snd (es ! e)) \<and> flow (edge_at h' e) = 0 \<and>
        \<not> isReverseEdge (edge_at h' e) \<and> reverseEdge (edge_at h' e) = Some r \<and>
        source (edge_at h' r) = fst (snd (es ! e)) \<and> target (edge_at h' r) = fst (es ! e) \<and>
        capacity (edge_at h' r) = 0 \<and> flow (edge_at h' r) = 0 \<and>
        isReverseEdge (edge_at h' r) \<and> reverseEdge (edge_at h' r) = Some e \<and>
        r \<in> set (edges (vertex_at h' (fst (snd (es ! e)))))) \<and>
     (\<forall>r. length es \<le> r \<and> r < edge_count h' \<longrightarrow>
        (\<exists>e < length es. reverseEdge (edge_at h' r) = Some e \<and>
           reverseEdge (edge_at h' e) = Some r)) \<and>
     addReverseEdges graph h' = Inr h' \<and>
     (\<forall>e h''. reverseEdge (edge_at h'' e) \<noteq> None \<longrightarrow> addReverseEdge e h'' = Inr h'')"
proof -
  note rp = readGraph_props[OF assms]
  from addReverseEdges_readGraph[OF assms] obtain h' where
    ar: "addReverseEdges graph h = Inr h'" and res: "residual_ok h'" and ext: "extends h h'"
    by blast
  let ?n = "length es"
  from res have po: "pairs_ok h'" and ok: "heap_ok h'" by (simp_all add: residual_ok_def)
  have le: "?n \<le> edge_count h'" using extends_vertex(1)[OF ext] rp(6) by simp
  have old: "source (edge_at h' e) = fst (es ! e) \<and> target (edge_at h' e) = fst (snd (es ! e)) \<and>
      capacity (edge_at h' e) = snd (snd (es ! e)) \<and> flow (edge_at h' e) = 0 \<and>
      \<not> isReverseEdge (edge_at h' e)" if "e < ?n" for e
    using extends_old[OF ext, of e] that rp(6) rp(7)[OF that] by (simp add: input_Edge_def)
  have new: "isReverseEdge (edge_at h' x) \<and> capacity (edge_at h' x) = 0 \<and> flow (edge_at h' x) = 0"
    if "?n \<le> x" "x < edge_count h'" for x
    using extends_new[OF ext, of x] that rp(6) by simp
  have a: "\<exists>r. ?n \<le> r \<and> r < edge_count h' \<and>
        source (edge_at h' e) = fst (es ! e) \<and> target (edge_at h' e) = fst (snd (es ! e)) \<and>
        capacity (edge_at h' e) = snd (snd (es ! e)) \<and> flow (edge_at h' e) = 0 \<and>
        \<not> isReverseEdge (edge_at h' e) \<and> reverseEdge (edge_at h' e) = Some r \<and>
        source (edge_at h' r) = fst (snd (es ! e)) \<and> target (edge_at h' r) = fst (es ! e) \<and>
        capacity (edge_at h' r) = 0 \<and> flow (edge_at h' r) = 0 \<and>
        isReverseEdge (edge_at h' r) \<and> reverseEdge (edge_at h' r) = Some e \<and>
        r \<in> set (edges (vertex_at h' (fst (snd (es ! e)))))" if e: "e < ?n" for e
  proof -
    from e le have "e < edge_count h'" by simp
    with res obtain r where r: "reverseEdge (edge_at h' e) = Some r"
      by (auto simp: residual_ok_def)
    note p = pairs_okD[OF po r]
    from p(6) old[OF e] have rv: "isReverseEdge (edge_at h' r)" by simp
    have nr: "?n \<le> r"
    proof (rule ccontr)
      assume "\<not> ?n \<le> r"
      then have "r < ?n" by simp
      from old[OF this] rv show False by simp
    qed
    from heap_okD(4)[OF ok p(2)] p(4) old[OF e]
    have "r \<in> set (edges (vertex_at h' (fst (snd (es ! e)))))" by simp
    with nr p old[OF e] new[OF nr p(2)] r show ?thesis by simp
  qed
  have b: "\<exists>e < ?n. reverseEdge (edge_at h' r) = Some e \<and> reverseEdge (edge_at h' e) = Some r"
    if r: "?n \<le> r \<and> r < edge_count h'" for r
  proof -
    from res r obtain e where e: "reverseEdge (edge_at h' r) = Some e"
      by (auto simp: residual_ok_def)
    note p = pairs_okD[OF po e]
    from new[of r] r p(6) have ne: "\<not> isReverseEdge (edge_at h' e)" by simp
    have "e < ?n"
    proof (rule ccontr)
      assume "\<not> e < ?n"
      with new[of e] p(2) ne show False by simp
    qed
    with e p(3) show ?thesis by blast
  qed
  have c: "addReverseEdges graph h' = Inr h'"
    using addReverseEdges_vertices_idle[OF res] by (simp add: addReverseEdges_def)
  have d: "addReverseEdge e h'' = Inr h''" if "reverseEdge (edge_at h'' e) \<noteq> None" for e h''
    using that by (simp add: addReverseEdge_def)
  from ar a b c d show ?thesis by blast
qed

theorem addReverseEdges_pairs_every_input_edge_witness:
  "\<exists>graph h h'. readGraph antiparallel = Inr (graph, h) \<and> addReverseEdges graph h = Inr h' \<and>
     addReverseEdges graph h' = Inr h' \<and>
     (\<exists>r. 2 \<le> r \<and> r < edge_count h' \<and> reverseEdge (edge_at h' 0) = Some r \<and>
          isReverseEdge (edge_at h' r) \<and> capacity (edge_at h' r) = 0 \<and>
          source (edge_at h' r) = CHR ''B'' \<and> target (edge_at h' r) = CHR ''A'')"
proof -
  from antiparallel_read obtain graph h h0 where
    r: "readGraph (CHR ''A'', CHR ''B'', [(CHR ''A'', CHR ''B'', 1), (CHR ''B'', CHR ''A'', 1)])
          = Inr (graph, h)" and a0: "addReverseEdges graph h = Inr h0"
    unfolding antiparallel_def by blast
  from addReverseEdges_pairs_every_input_edge[OF r] a0 have
    e: "\<forall>e < length [(CHR ''A'', CHR ''B'', 1::int), (CHR ''B'', CHR ''A'', 1)].
        \<exists>r. length [(CHR ''A'', CHR ''B'', 1::int), (CHR ''B'', CHR ''A'', 1)] \<le> r \<and>
        r < edge_count h0 \<and> reverseEdge (edge_at h0 e) = Some r \<and>
        source (edge_at h0 r) = fst (snd ([(CHR ''A'', CHR ''B'', 1::int), (CHR ''B'', CHR ''A'', 1)] ! e)) \<and>
        target (edge_at h0 r) = fst ([(CHR ''A'', CHR ''B'', 1::int), (CHR ''B'', CHR ''A'', 1)] ! e) \<and>
        capacity (edge_at h0 r) = 0 \<and> isReverseEdge (edge_at h0 r)"
    and i: "addReverseEdges graph h0 = Inr h0"
    by auto
  from e[rule_format, of 0]
  have "\<exists>r. 2 \<le> r \<and> r < edge_count h0 \<and> reverseEdge (edge_at h0 0) = Some r \<and>
          isReverseEdge (edge_at h0 r) \<and> capacity (edge_at h0 r) = 0 \<and>
          source (edge_at h0 r) = CHR ''B'' \<and> target (edge_at h0 r) = CHR ''A''"
    by auto
  with r a0 i show ?thesis unfolding antiparallel_def by blast
qed

text \<open>
  Claim C8, as stated, fails: \<^verbatim>\<open>readGraph\<close> never compares the source label with the target
  label. On the input with source \<open>S\<close>, target \<open>S\<close> and the edge \<open>S \<rightarrow> T\<close> the program builds the
  graph, runs the search and prints the flow value 0.
\<close>

theorem source_equal_target_is_solved:
  "main source_is_target = Some (Inr (0, [(CHR ''S'', CHR ''T'', 0)]))"
  apply (simp add: source_is_target_def eval_defs)
  apply (subst findMaxFlow_loop.simps)
  apply (simp add: eval_defs)
  done

text \<open>
  Claim C8, amended. Graph construction fails, with the "no such vertex" error, exactly when
  the source label or the target label occurs in no edge of the input. It does not reject
  an input whose source label equals its target label: when that label occurs in an edge,
  construction succeeds, the first search finds no path and \<^verbatim>\<open>findMaxFlow\<close> returns 0.
\<close>

theorem readGraph_rejects_only_unknown_labels:
  "(readGraph (s, t, es) = Inl NoSuchVertex \<longleftrightarrow> s \<notin> input_names es \<or> t \<notin> input_names es) \<and>
   ((\<exists>graph h. readGraph (s, t, es) = Inr (graph, h)) \<longleftrightarrow>
      s \<in> input_names es \<and> t \<in> input_names es) \<and>
   (s \<in> input_names es \<longrightarrow>
      (\<exists>graph h hf. readGraph (s, s, es) = Inr (graph, h) \<and>
         graph_source graph = s \<and> graph_target graph = s \<and>
         findMaxFlow graph h = Some (Inr (hf, 0))))"
proof -
  have b: "(\<exists>graph h. readGraph (s, t, es) = Inr (graph, h)) \<longleftrightarrow>
      s \<in> input_names es \<and> t \<in> input_names es"
    by (rule readGraph_Inr_iff)
  have only: "readGraph (s, t, es) = Inl e \<Longrightarrow> e = NoSuchVertex" for e
    by (auto simp: readGraph_def split: prod.splits if_splits)
  have a: "readGraph (s, t, es) = Inl NoSuchVertex \<longleftrightarrow> s \<notin> input_names es \<or> t \<notin> input_names es"
  proof (cases "readGraph (s, t, es)")
    case (Inl e)
    with only[OF Inl] b show ?thesis by auto
  next
    case (Inr gh)
    with b show ?thesis by (cases gh) auto
  qed
  have c: "\<exists>graph h hf. readGraph (s, s, es) = Inr (graph, h) \<and>
         graph_source graph = s \<and> graph_target graph = s \<and>
         findMaxFlow graph h = Some (Inr (hf, 0))" if "s \<in> input_names es"
  proof -
    from that readGraph_Inr_iff[of s s es] obtain graph h where
      rg: "readGraph (s, s, es) = Inr (graph, h)" by blast
    note rp = readGraph_props[OF rg]
    from addReverseEdges_readGraph[OF rg] obtain h0 where
      ar: "addReverseEdges graph h = Inr h0" and res: "residual_ok h0" and ext: "extends h h0"
      by blast
    have adj: "adj_ok h0" using res by (simp add: residual_ok_def heap_ok_adj_ok)
    have mk: "\<forall>v. v \<noteq> s \<longrightarrow> \<not> inPath (vertex_at h0 v)"
      using extends_vertex(2)[OF ext] rp(8) by (simp add: read_inv_def)
    from findPath_spec[OF adj mk, of s] obtain h1 p f where
      fp: "findPath h0 s s = Some (h1, p, f)" and yes: "f \<longrightarrow> augmenting_path h0 s s p"
      by blast
    from yes augmenting_path_ends_differ[of h0 s s p] have "\<not> f" by auto
    with fp rp(1,2) have "findMaxFlow_loop graph h0 0 = Some (Inr (h1, 0))"
      by (intro findMaxFlow_loop_stop[where p = p]) simp
    with ar have "findMaxFlow graph h = Some (Inr (h1, 0))" by (simp add: findMaxFlow_def)
    with rg rp(1,2) show ?thesis by blast
  qed
  from a b c show ?thesis by blast
qed

theorem readGraph_rejects_only_unknown_labels_witness:
  "CHR ''S'' \<in> input_names [(CHR ''S'', CHR ''T'', 3)] \<and>
   (\<exists>graph h hf. readGraph source_is_target = Inr (graph, h) \<and>
      findMaxFlow graph h = Some (Inr (hf, 0)))"
proof -
  have n: "CHR ''S'' \<in> input_names [(CHR ''S'', CHR ''T'', 3)]"
    by (simp add: input_names_def)
  from readGraph_rejects_only_unknown_labels[of "CHR ''S''" "CHR ''S''" "[(CHR ''S'', CHR ''T'', 3)]"] n
  have "\<exists>graph h hf. readGraph (CHR ''S'', CHR ''S'', [(CHR ''S'', CHR ''T'', 3)]) = Inr (graph, h) \<and>
      findMaxFlow graph h = Some (Inr (hf, 0))" by blast
  with n show ?thesis unfolding source_is_target_def by blast
qed

subsection \<open>Flows and cuts\<close>

lemma sum_flow_out:
  "(\<Sum>v \<in> R. flow_out es f v) = (\<Sum>e<length es. if fst (es ! e) \<in> R then f e else 0)"
proof -
  have "(\<Sum>v \<in> R. flow_out es f v) = (\<Sum>e<length es. \<Sum>v \<in> R. if fst (es ! e) = v then f e else 0)"
    unfolding flow_out_def by (rule sum.swap)
  also have "\<dots> = (\<Sum>e<length es. if fst (es ! e) \<in> R then f e else 0)"
    by (intro sum.cong refl) (simp add: sum.delta')
  finally show ?thesis .
qed

lemma sum_flow_in:
  "(\<Sum>v \<in> R. flow_in es f v) = (\<Sum>e<length es. if fst (snd (es ! e)) \<in> R then f e else 0)"
proof -
  have "(\<Sum>v \<in> R. flow_in es f v) =
      (\<Sum>e<length es. \<Sum>v \<in> R. if fst (snd (es ! e)) = v then f e else 0)"
    unfolding flow_in_def by (rule sum.swap)
  also have "\<dots> = (\<Sum>e<length es. if fst (snd (es ! e)) \<in> R then f e else 0)"
    by (intro sum.cong refl) (simp add: sum.delta')
  finally show ?thesis .
qed

text \<open>The value of a flow is its net flow across any cut that separates the source from the
  target.\<close>

lemma flow_value_cut:
  assumes cons: "\<forall>v. v \<noteq> s \<and> v \<noteq> t \<longrightarrow> flow_in es f v = flow_out es f v"
    and s: "s \<in> R" and t: "t \<notin> R"
  shows "flow_value s es f = cut_forward es R f - cut_backward es R f"
proof -
  have "(\<Sum>v \<in> R. flow_out es f v - flow_in es f v) =
      (\<Sum>v \<in> R. if v = s then flow_value s es f else 0)"
    using cons t by (intro sum.cong refl) (auto simp: flow_value_def)
  also have "\<dots> = flow_value s es f" using s by (simp add: sum.delta)
  finally have "flow_value s es f = (\<Sum>v \<in> R. flow_out es f v) - (\<Sum>v \<in> R. flow_in es f v)"
    by (simp add: sum_subtractf)
  also have "\<dots> = (\<Sum>e<length es. (if fst (es ! e) \<in> R then f e else 0) -
                                   (if fst (snd (es ! e)) \<in> R then f e else 0))"
    by (simp add: sum_flow_out sum_flow_in sum_subtractf)
  also have "\<dots> = (\<Sum>e<length es.
        (if fst (es ! e) \<in> R \<and> fst (snd (es ! e)) \<notin> R then f e else 0) -
        (if fst (es ! e) \<notin> R \<and> fst (snd (es ! e)) \<in> R then f e else 0))"
    by (intro sum.cong refl) auto
  also have "\<dots> = cut_forward es R f - cut_backward es R f"
    by (simp add: cut_forward_def cut_backward_def sum_subtractf)
  finally show ?thesis .
qed

text \<open>No valid flow sends more across a cut than the capacity of the cut.\<close>

lemma flow_value_le_cut:
  assumes "valid_flow s t es f" "s \<in> R" "t \<notin> R"
  shows "flow_value s es f \<le> cut_forward es R (\<lambda>e. snd (snd (es ! e)))"
proof -
  from assms(1) have b: "\<forall>e < length es. 0 \<le> f e \<and> f e \<le> snd (snd (es ! e))"
    and c: "\<forall>v. v \<noteq> s \<and> v \<noteq> t \<longrightarrow> flow_in es f v = flow_out es f v"
    by (simp_all add: valid_flow_def)
  have "cut_forward es R f \<le> cut_forward es R (\<lambda>e. snd (snd (es ! e)))"
    unfolding cut_forward_def using b by (intro sum_mono) auto
  moreover have "0 \<le> cut_backward es R f"
    unfolding cut_backward_def using b by (intro sum_nonneg) auto
  ultimately show ?thesis using flow_value_cut[OF c assms(2,3)] by simp
qed

subsection \<open>The vertices reachable in the residual graph\<close>

lemma is_walk_append:
  "is_walk h u (p @ q) w \<longleftrightarrow> (\<exists>v. is_walk h u p v \<and> is_walk h v q w)"
  by (induction p arbitrary: u) auto

lemma is_walk_prefix:
  assumes "is_walk h u p w'" "w \<in> tgt_of h ` set p"
  shows "\<exists>p1 p2. p = p1 @ p2 \<and> p1 \<noteq> [] \<and> is_walk h u p1 w"
  using assms
proof (induction p arbitrary: u)
  case Nil
  then show ?case by simp
next
  case (Cons a p)
  show ?case
  proof (cases "tgt_of h a = w")
    case True
    from Cons.prems(1) True have "is_walk h u [a] w" by simp
    then show ?thesis by (intro exI[of _ "[a]"] exI[of _ p]) simp
  next
    case False
    with Cons.prems(2) have "w \<in> tgt_of h ` set p" by auto
    moreover from Cons.prems(1) have "is_walk h (tgt_of h a) p w'" by simp
    ultimately obtain p1 p2 where p: "p = p1 @ p2" "p1 \<noteq> []" "is_walk h (tgt_of h a) p1 w"
      using Cons.IH by blast
    from Cons.prems(1) p(3) have "is_walk h u (a # p1) w" by simp
    with p(1) show ?thesis by (intro exI[of _ "a # p1"] exI[of _ p2]) simp
  qed
qed

text \<open>An edge with residual capacity does not leave the set of reachable vertices.\<close>

lemma reachable_closed:
  assumes ok: "heap_ok h" and u: "u \<in> reachable h s" and x: "x < edge_count h"
    and src: "source (edge_at h x) = u" and cap: "0 < capacity (edge_at h x)"
  shows "tgt_of h x \<in> reachable h s"
proof (cases "tgt_of h x = s")
  case True
  then show ?thesis by (simp add: reachable_def)
next
  case ns: False
  from heap_okD(4)[OF ok x] src have adj: "x \<in> set (edges (vertex_at h u))" by simp
  show ?thesis
  proof (cases "u = s")
    case True
    with adj src cap ns have "augmenting_path h s (tgt_of h x) [x]"
      by (auto simp: augmenting_path_def)
    then show ?thesis unfolding reachable_def by blast
  next
    case False
    with u obtain p where p: "augmenting_path h s u p" by (auto simp: reachable_def)
    then have ne: "p \<noteq> []" and w: "is_walk h s p u"
      and pos: "\<forall>e \<in> set p. 0 < capacity (edge_at h e)"
      and d: "distinct (s # map (tgt_of h) p)"
      by (simp_all add: augmenting_path_def)
    show ?thesis
    proof (cases "tgt_of h x \<in> tgt_of h ` set p")
      case True
      from is_walk_prefix[OF w True] obtain p1 p2 where
        q: "p = p1 @ p2" "p1 \<noteq> []" "is_walk h s p1 (tgt_of h x)" by blast
      from q(1) pos d have "(\<forall>e \<in> set p1. 0 < capacity (edge_at h e)) \<and>
          distinct (s # map (tgt_of h) p1)" by auto
      with q(2,3) have "augmenting_path h s (tgt_of h x) p1" by (simp add: augmenting_path_def)
      then show ?thesis unfolding reachable_def by blast
    next
      case False
      have "is_walk h s (p @ [x]) (tgt_of h x)"
        using w adj src by (auto simp: is_walk_append)
      moreover have "distinct (s # map (tgt_of h) (p @ [x]))" using d False ns by auto
      ultimately have "augmenting_path h s (tgt_of h x) (p @ [x])"
        using pos cap by (auto simp: augmenting_path_def)
      then show ?thesis unfolding reachable_def by blast
    qed
  qed
qed

subsection \<open>Maximum flow\<close>

text \<open>The flows of a heap of the loop, read as a flow assignment of the input.\<close>

lemma heap_flow_valid:
  assumes ro: "residual_of (length es) h0" and le: "length es \<le> edge_count h0"
    and e0: "\<forall>e < length es. source (edge_at h0 e) = fst (es ! e) \<and>
               target (edge_at h0 e) = fst (snd (es ! e)) \<and>
               capacity (edge_at h0 e) = snd (snd (es ! e))"
    and caps: "nonneg_capacities es"
    and inv: "driver_inv graph h0 h"
    and cons: "\<forall>v. v \<noteq> s \<and> v \<noteq> t \<longrightarrow> net_flow (length es) h v = 0"
  shows "valid_flow s t es (\<lambda>e. flow (edge_at h e))"
    and "flow_value s es (\<lambda>e. flow (edge_at h e)) = net_flow (length es) h s"
    and "flow_out es (\<lambda>e. flow (edge_at h e)) v = outflow (length es) h v"
    and "flow_in es (\<lambda>e. flow (edge_at h e)) v = inflow (length es) h v"
proof -
  let ?n = "length es" and ?g = "\<lambda>e. flow (edge_at h e)"
  from inv have sst: "same_struct h0 h" and pi: "pair_inv h0 h" by (simp_all add: driver_inv_def)
  have nn: "\<forall>e < ?n. 0 \<le> capacity (edge_at h0 e)"
    using caps e0 by (simp add: nonneg_capacities_def)
  have ends: "\<forall>e < ?n. source (edge_at h e) = fst (es ! e) \<and> target (edge_at h e) = fst (snd (es ! e))"
    using e0 same_structD(2,3)[OF sst] by simp
  have fo: "flow_out es ?g v = outflow ?n h v" for v
    unfolding flow_out_def outflow_def using ends by (intro sum.cong refl) simp
  have fi: "flow_in es ?g v = inflow ?n h v" for v
    unfolding flow_in_def inflow_def using ends by (intro sum.cong refl) simp
  have fb: "\<forall>e < ?n. 0 \<le> ?g e \<and> ?g e \<le> snd (snd (es ! e))"
    using flow_bounds(1)[OF ro sst pi nn le] e0 by simp
  have c: "\<forall>v. v \<noteq> s \<and> v \<noteq> t \<longrightarrow> flow_in es ?g v = flow_out es ?g v"
    using cons by (simp add: fo fi net_flow_def)
  from fb c show "valid_flow s t es ?g" by (simp add: valid_flow_def)
  show "flow_value s es ?g = net_flow ?n h s" by (simp add: flow_value_def fo fi net_flow_def)
  show "flow_out es ?g v = outflow ?n h v" by (rule fo)
  show "flow_in es ?g v = inflow ?n h v" by (rule fi)
qed

text \<open>The run of \<^verbatim>\<open>findMaxFlow\<close> on an input whose capacities are non-negative and in which
  the value of every valid flow fits an \<^verbatim>\<open>int\<close>: the flow it leaves is a valid flow, the
  value it returns is the value of that flow, and no valid flow has a greater value.\<close>

lemma findMaxFlow_maximum:
  assumes rg: "readGraph (s, t, es) = Inr (graph, h)" and caps: "nonneg_capacities es"
    and st: "s \<noteq> t" and bound: "\<forall>f. valid_flow s t es f \<longrightarrow> flow_value s es f < 2 ^ 31"
  shows "\<exists>hf mf. findMaxFlow graph h = Some (Inr (hf, mf)) \<and>
           valid_flow s t es (\<lambda>e. flow (edge_at hf e)) \<and>
           flow_value s es (\<lambda>e. flow (edge_at hf e)) = mf \<and>
           (\<forall>f. valid_flow s t es f \<longrightarrow> flow_value s es f \<le> mf)"
proof -
  let ?n = "length es"
  note rp = readGraph_props(1,2)[OF rg]
  from findMaxFlow_run[OF rg caps] obtain h0 hf mf where
    run: "findMaxFlow graph h = Some (Inr (hf, mf))"
    and ro: "residual_of ?n h0" and le: "?n \<le> edge_count h0"
    and e0: "\<forall>e < ?n. source (edge_at h0 e) = fst (es ! e) \<and>
               target (edge_at h0 e) = fst (snd (es ! e)) \<and>
               capacity (edge_at h0 e) = snd (snd (es ! e)) \<and> flow (edge_at h0 e) = 0"
    and post: "loop_post ?n graph h0 h0 0 hf mf" by blast
  from e0 have e0': "\<forall>e < ?n. source (edge_at h0 e) = fst (es ! e) \<and>
               target (edge_at h0 e) = fst (snd (es ! e)) \<and>
               capacity (edge_at h0 e) = snd (snd (es ! e))" by simp
  from ro have res: "residual_ok h0" by (simp add: residual_of_def)
  then have po: "pairs_ok h0" by (simp add: residual_ok_def)
  have zero: "net_flow ?n h0 v = 0" for v using e0 by (intro net_flow_start) simp
  have fits: "value_fits ?n graph h0"
    unfolding value_fits_def rp
  proof (intro allI impI)
    fix h' assume a: "driver_inv graph h0 h' \<and> (\<forall>v. v \<noteq> s \<and> v \<noteq> t \<longrightarrow> net_flow ?n h' v = 0)"
    note v = heap_flow_valid(1,2)[OF ro le e0' caps a[THEN conjunct1] a[THEN conjunct2]]
    from bound v(1) have "flow_value s es (\<lambda>e. flow (edge_at h' e)) < 2 ^ 31" by blast
    with v(2) show "net_flow ?n h' s < 2 ^ 31" by simp
  qed
  from post have inv: "driver_inv graph h0 hf"
    and noaug: "\<forall>q. \<not> augmenting_path hf s t q"
    and cons0: "\<forall>v. v \<noteq> s \<and> v \<noteq> t \<longrightarrow> net_flow ?n hf v = net_flow ?n h0 v"
    and acc: "value_fits ?n graph h0 \<and> 0 \<le> (0::int) \<and> 0 = net_flow ?n h0 s \<and>
        (\<forall>v. v \<noteq> s \<and> v \<noteq> t \<longrightarrow> net_flow ?n h0 v = 0) \<longrightarrow> mf = net_flow ?n hf s"
    by (simp_all add: loop_post_def rp)
  from acc fits zero have mf: "mf = net_flow ?n hf s" by simp
  from inv have sst: "same_struct h0 hf" and pi: "pair_inv h0 hf" by (simp_all add: driver_inv_def)
  have nn: "\<forall>e < ?n. 0 \<le> capacity (edge_at h0 e)"
    using caps e0 by (simp add: nonneg_capacities_def)
  let ?g = "\<lambda>e. flow (edge_at hf e)"
  have ends: "\<forall>e < ?n. source (edge_at hf e) = fst (es ! e) \<and> target (edge_at hf e) = fst (snd (es ! e))"
    using e0 same_structD(2,3)[OF sst] by simp
  have consf: "\<forall>v. v \<noteq> s \<and> v \<noteq> t \<longrightarrow> net_flow ?n hf v = 0" using cons0 zero by simp
  note hv = heap_flow_valid[OF ro le e0' caps inv consf]
  have valid: "valid_flow s t es ?g" by (rule hv(1))
  have val: "flow_value s es ?g = mf" using hv(2) mf by simp
  have cons: "\<forall>v. v \<noteq> s \<and> v \<noteq> t \<longrightarrow> flow_in es ?g v = flow_out es ?g v"
    using valid by (simp add: valid_flow_def)
  \<comment> \<open>the cut between the vertices that are reachable in the residual graph and the others\<close>
  let ?R = "reachable hf s"
  have sR: "s \<in> ?R" by (simp add: reachable_def)
  have tR: "t \<notin> ?R" using st noaug by (simp add: reachable_def)
  have ok: "heap_ok hf" using res heap_ok_struct[OF sst] by (simp add: residual_ok_def)
  have ec: "edge_count hf = edge_count h0" using sst by (simp add: same_struct_def)
  have closed: "capacity (edge_at hf x) = 0"
    if "x < edge_count h0" "source (edge_at hf x) \<in> ?R" "target (edge_at hf x) \<notin> ?R" for x
  proof -
    from reachable_closed[OF ok that(2), of x] that(1,3) ec
    have "\<not> 0 < capacity (edge_at hf x)" by auto
    with caps_nonneg[OF ro sst pi nn that(1)] show ?thesis by simp
  qed
  have pair: "\<exists>r. r < edge_count h0 \<and> source (edge_at hf r) = fst (snd (es ! e)) \<and>
      target (edge_at hf r) = fst (es ! e) \<and>
      capacity (edge_at hf e) + capacity (edge_at hf r) = snd (snd (es ! e)) \<and>
      ?g e = capacity (edge_at hf r)" if e: "e < ?n" for e
  proof -
    from e le have ec0: "e < edge_count h0" by simp
    with res obtain r where r: "reverseEdge (edge_at h0 e) = Some r"
      by (auto simp: residual_ok_def)
    from ro ec0 e have nr: "\<not> isReverseEdge (edge_at h0 e)" by (auto simp: residual_of_def)
    note p = pairs_okD[OF po r]
    note i = pair_invD[OF pi nr r]
    from p(2,4,5) i(2,3) e0 e same_structD(2,3)[OF sst] show ?thesis by auto
  qed
  have forward: "?g e = snd (snd (es ! e))"
    if e: "e < ?n" and c: "fst (es ! e) \<in> ?R \<and> fst (snd (es ! e)) \<notin> ?R" for e
  proof -
    from e le have ec0: "e < edge_count h0" by simp
    from closed[OF ec0] ends e c have "capacity (edge_at hf e) = 0" by simp
    with pair[OF e] show ?thesis by auto
  qed
  have backward: "?g e = 0"
    if e: "e < ?n" and c: "fst (es ! e) \<notin> ?R \<and> fst (snd (es ! e)) \<in> ?R" for e
  proof -
    from pair[OF e] obtain r where r: "r < edge_count h0"
      "source (edge_at hf r) = fst (snd (es ! e))" "target (edge_at hf r) = fst (es ! e)"
      "?g e = capacity (edge_at hf r)" by blast
    from closed[OF r(1)] r(2,3) c have "capacity (edge_at hf r) = 0" by simp
    with r(4) show ?thesis by simp
  qed
  have "cut_forward es ?R ?g = cut_forward es ?R (\<lambda>e. snd (snd (es ! e)))"
    unfolding cut_forward_def using forward by (intro sum.cong refl) auto
  moreover have "cut_backward es ?R ?g = 0"
    unfolding cut_backward_def using backward by (intro sum.neutral) auto
  ultimately have cut: "mf = cut_forward es ?R (\<lambda>e. snd (snd (es ! e)))"
    using flow_value_cut[OF cons sR tR] val by simp
  have best: "\<forall>f. valid_flow s t es f \<longrightarrow> flow_value s es f \<le> mf"
    using flow_value_le_cut[OF _ sR tR] cut by simp
  from run valid val best show ?thesis by blast
qed

lemma sum_lessThan_4: "(\<Sum>e<(4::nat). g e) = g 0 + g 1 + g 2 + (g 3 :: int)"
  by (simp add: numeral_eq_Suc)

text \<open>
  Claim C1, as stated, fails where the maximum flow does not fit the \<^verbatim>\<open>int\<close> that
  \<^verbatim>\<open>findMaxFlow\<close> accumulates it in. On two disjoint paths of capacity \<open>2147483647\<close> each, the
  flow that fills every edge is valid and has the value \<open>4294967294\<close>; the program finds both
  paths, and its \<^verbatim>\<open>maxFlow += minCapacity\<close> wraps to \<open>-2\<close>, which it returns.
\<close>

theorem findMaxFlow_wraps_around:
  "valid_flow (CHR ''S'') (CHR ''T'') (snd (snd two_full_paths)) (\<lambda>e. 2147483647) \<and>
   flow_value (CHR ''S'') (snd (snd two_full_paths)) (\<lambda>e. 2147483647) = 4294967294 \<and>
   main two_full_paths =
     Some (Inr (- 2, [(CHR ''A'', CHR ''T'', 2147483647), (CHR ''B'', CHR ''T'', 2147483647),
                      (CHR ''S'', CHR ''A'', 2147483647), (CHR ''S'', CHR ''B'', 2147483647)]))"
proof (intro conjI)
  show "valid_flow (CHR ''S'') (CHR ''T'') (snd (snd two_full_paths)) (\<lambda>e. 2147483647)"
    by (auto simp: two_full_paths_def valid_flow_def flow_in_def flow_out_def sum_lessThan_4
        less_Suc_eq numeral_eq_Suc)
  show "flow_value (CHR ''S'') (snd (snd two_full_paths)) (\<lambda>e. 2147483647) = 4294967294"
    by (simp add: two_full_paths_def flow_value_def flow_in_def flow_out_def sum_lessThan_4)
  show "main two_full_paths =
     Some (Inr (- 2, [(CHR ''A'', CHR ''T'', 2147483647), (CHR ''B'', CHR ''T'', 2147483647),
                      (CHR ''S'', CHR ''A'', 2147483647), (CHR ''S'', CHR ''B'', 2147483647)]))"
    apply (simp add: two_full_paths_def eval_defs)
    apply (subst findMaxFlow_loop.simps)
    apply (simp add: eval_defs)
    apply (subst findMaxFlow_loop.simps)
    apply (simp add: eval_defs)
    apply (subst findMaxFlow_loop.simps)
    apply (simp add: eval_defs)
    done
qed

lemma scenario_main:
  "main scenario = Some (Inr (2, [(CHR ''A'', CHR ''T'', 2), (CHR ''S'', CHR ''A'', 2)]))"
  apply (simp add: scenario_def eval_defs)
  apply (subst findMaxFlow_loop.simps)
  apply (simp add: eval_defs)
  apply (subst findMaxFlow_loop.simps)
  apply (simp add: eval_defs)
  done

text \<open>
  Claim C1, amended. For every input with non-negative \<^verbatim>\<open>int\<close> capacities and distinct,
  existing source and target in which no valid flow has a value above \<open>2^31 - 1\<close> (the
  maximum flow fits an \<^verbatim>\<open>int\<close>), \<^verbatim>\<open>findMaxFlow\<close> returns the maximum feasible flow value from
  the source to the target: the flow it leaves on the edges of the input is a valid flow (within
  the capacities, conserved at every vertex but the source and the target), the value
  returned is the value of that flow, and no valid flow has a greater value. On the graph
  with the edges \<open>S \<rightarrow> A\<close> of capacity 3 and \<open>A \<rightarrow> T\<close> of capacity 2 the program prints 2, with
  the final flow 2 on \<open>S \<rightarrow> A\<close> and 2 on \<open>A \<rightarrow> T\<close>.
\<close>

theorem findMaxFlow_returns_maximum_flow:
  "(\<forall>s t es graph h.
      readGraph (s, t, es) = Inr (graph, h) \<and> nonneg_capacities es \<and> s \<noteq> t \<and>
      (\<forall>f. valid_flow s t es f \<longrightarrow> flow_value s es f < 2 ^ 31) \<longrightarrow>
      (\<exists>hf mf. findMaxFlow graph h = Some (Inr (hf, mf)) \<and>
         valid_flow s t es (\<lambda>e. flow (edge_at hf e)) \<and>
         flow_value s es (\<lambda>e. flow (edge_at hf e)) = mf \<and>
         (\<forall>f. valid_flow s t es f \<longrightarrow> flow_value s es f \<le> mf))) \<and>
   main scenario = Some (Inr (2, [(CHR ''A'', CHR ''T'', 2), (CHR ''S'', CHR ''A'', 2)]))"
  using findMaxFlow_maximum scenario_main by blast

theorem findMaxFlow_returns_maximum_flow_witness:
  "nonneg_capacities (snd (snd scenario)) \<and>
   (\<exists>graph h hf mf. readGraph scenario = Inr (graph, h) \<and>
      findMaxFlow graph h = Some (Inr (hf, mf)) \<and>
      valid_flow (CHR ''S'') (CHR ''T'') (snd (snd scenario)) (\<lambda>e. flow (edge_at hf e)) \<and>
      flow_value (CHR ''S'') (snd (snd scenario)) (\<lambda>e. flow (edge_at hf e)) = mf)"
proof -
  let ?es = "[(CHR ''S'', CHR ''A'', 3::int), (CHR ''A'', CHR ''T'', 2)]"
  from scenario_round obtain graph h where
    r: "readGraph (CHR ''S'', CHR ''T'', ?es) = Inr (graph, h)"
    unfolding scenario_def by blast
  have c: "nonneg_capacities ?es" by (simp add: nonneg_capacities_def)
  have o: "\<forall>f. valid_flow (CHR ''S'') (CHR ''T'') ?es f \<longrightarrow>
      flow_value (CHR ''S'') ?es f < 2 ^ 31"
  proof (intro allI impI)
    fix f assume "valid_flow (CHR ''S'') (CHR ''T'') ?es f"
    then have "\<forall>e < 2. f e \<le> snd (snd (?es ! e))"
      by (simp add: valid_flow_def numeral_2_eq_2)
    from this[rule_format, of 0] have "f 0 \<le> 3" by simp
    moreover have "flow_value (CHR ''S'') ?es f = f 0"
      by (simp add: flow_value_def flow_out_def flow_in_def numeral_2_eq_2)
    ultimately show "flow_value (CHR ''S'') ?es f < 2 ^ 31" by simp
  qed
  have d: "CHR ''S'' \<noteq> CHR ''T''" by simp
  from findMaxFlow_returns_maximum_flow[THEN conjunct1, rule_format,
      of "CHR ''S''" "CHR ''T''" ?es graph h] r c d o
  have "\<exists>hf mf. findMaxFlow graph h = Some (Inr (hf, mf)) \<and>
      valid_flow (CHR ''S'') (CHR ''T'') ?es (\<lambda>e. flow (edge_at hf e)) \<and>
      flow_value (CHR ''S'') ?es (\<lambda>e. flow (edge_at hf e)) = mf"
    by auto
  with r c show ?thesis unfolding scenario_def snd_conv by blast
qed

end
